theory Spec2Isabelle
  imports Main "HOL-Library.Word"
begin

unbundle bit_operations_syntax

section \<open>Machine types and abnormal termination\<close>

type_synonym u8 = "8 word"
type_synonym u16 = "16 word"
type_synonym u32 = "32 word"

text \<open>
  A call of the C++ code either returns, or it ends the program: a failed \<open>assert\<close>
  aborts (only when the code is compiled without \<open>NDEBUG\<close>), and a \<open>memcpy\<close> that
  leaves the memory of its source or destination has undefined behaviour. Both are
  outcomes of the model. Every function that contains an \<open>assert\<close> takes the flag
  \<open>ndebug\<close>: \<open>True\<close> when \<open>NDEBUG\<close> is defined and the assertions are compiled out.
\<close>

datatype fault = AssertionFailed | OutOfBounds

text \<open>
  \<open>std::memcpy(dst + d, src + s, n)\<close> on two memory regions given as byte lists:
  \<open>None\<close> when the copy would leave one of them.
\<close>

definition memcpy :: "u8 list \<Rightarrow> nat \<Rightarrow> u8 list \<Rightarrow> nat \<Rightarrow> nat \<Rightarrow> u8 list option" where
  "memcpy dst d src s n =
     (if d + n \<le> length dst \<and> s + n \<le> length src
      then Some (take d dst @ take n (drop s src) @ drop (d + n) dst)
      else None)"

section \<open>The ring buffer (ring\_buffer.h, ring\_buffer.cc)\<close>

text \<open>
  \<open>std::error_code\<close> values returned by \<open>write\<close>: the default constructed code on
  success and the two constants of the class.
\<close>

datatype error_code = Success | ErrBufferOverflow | ErrInvalidParameter

text \<open>
  The data members of \<open>class RingBuffer\<close> (the mutex apart); a member \<open>x_\<close> of the
  source is the field \<open>x_m\<close>. \<open>buffered_bytes_\<close> is an
  \<open>int32_t\<close> in the source; it is kept as its 32 bit pattern, read signed by the
  assertions (\<open><s\<close>) and unsigned where the source converts it to \<open>uint32_t\<close>.
\<close>

record RingBuffer =
  index_mask :: u32
  buffer_m :: "u8 list"
  read_index_m :: u32
  write_index_m :: u32
  buffered_bytes_m :: u32

definition IS_POWER_OF_TWO :: "u32 \<Rightarrow> bool" where
  "IS_POWER_OF_TWO x \<longleftrightarrow> x \<noteq> 0 \<and> x AND (x - 1) = 0"

text \<open>\<open>RingBuffer::RingBuffer(uint32_t size)\<close>; \<open>resize\<close> value-initialises the bytes.\<close>

definition RingBuffer_new :: "bool \<Rightarrow> u32 \<Rightarrow> fault + RingBuffer" where
  "RingBuffer_new ndebug sz =
     (if \<not> ndebug \<and> \<not> 0 < sz then Inl AssertionFailed
      else if \<not> ndebug \<and> \<not> IS_POWER_OF_TWO sz then Inl AssertionFailed
      else Inr \<lparr>index_mask = sz - 1, buffer_m = replicate (unat sz) 0,
                read_index_m = 0, write_index_m = 0, buffered_bytes_m = 0\<rparr>)"

text \<open>\<open>RingBuffer::RingBuffer()\<close>: the default size of 2048 bytes.\<close>

definition RingBuffer_default :: "bool \<Rightarrow> fault + RingBuffer" where
  "RingBuffer_default ndebug = RingBuffer_new ndebug 2048"

definition capacity :: "RingBuffer \<Rightarrow> u32" where
  "capacity rb = of_nat (length (buffer_m rb))"

definition buffered_bytes :: "bool \<Rightarrow> RingBuffer \<Rightarrow> fault + u32" where
  "buffered_bytes ndebug rb =
     (if \<not> ndebug \<and> buffered_bytes_m rb <s 0 then Inl AssertionFailed
      else Inr (buffered_bytes_m rb))"

definition empty :: "RingBuffer \<Rightarrow> bool" where
  "empty rb \<longleftrightarrow> buffered_bytes_m rb = 0"

definition full :: "RingBuffer \<Rightarrow> bool" where
  "full rb \<longleftrightarrow> buffered_bytes_m rb = of_nat (length (buffer_m rb))"

text \<open>
  \<open>RingBuffer::write\<close> (\<open>write\<close> is a keyword of Isabelle, hence \<open>write_rb\<close>). \<open>data\<close> is \<open>None\<close> for the null pointer, otherwise the memory
  readable from the pointer on. All sums and comparisons are those of \<open>uint32_t\<close>.
\<close>

definition write_rb :: "bool \<Rightarrow> RingBuffer \<Rightarrow> u8 list option \<Rightarrow> u32 \<Rightarrow> fault + (error_code \<times> RingBuffer)" where
  "write_rb ndebug rb data len =
     (case data of
        None \<Rightarrow> Inr (ErrInvalidParameter, rb)
      | Some src \<Rightarrow>
          if len = 0 then Inr (ErrInvalidParameter, rb)
          else (case buffered_bytes ndebug rb of
             Inl f \<Rightarrow> Inl f
           | Inr bb \<Rightarrow>
               if bb + len > capacity rb then Inr (ErrBufferOverflow, rb)
               else
                 let temp_write_idx = write_index_m rb AND index_mask rb;
                     copied =
                       (if temp_write_idx + len > capacity rb
                        then
                          let left = unat (capacity rb - temp_write_idx)
                          in (case memcpy (buffer_m rb) (unat temp_write_idx) src 0 left of
                                None \<Rightarrow> None
                              | Some b1 \<Rightarrow> memcpy b1 0 src left (unat len - left))
                        else memcpy (buffer_m rb) (unat temp_write_idx) src 0 (unat len))
                 in (case copied of
                       None \<Rightarrow> Inl OutOfBounds
                     | Some buf \<Rightarrow>
                         let rb' = rb\<lparr>buffer_m := buf,
                                      write_index_m := temp_write_idx + len,
                                      buffered_bytes_m := buffered_bytes_m rb + len\<rparr>
                         in if \<not> ndebug \<and> buffered_bytes_m rb' <s 0 then Inl AssertionFailed
                            else Inr (Success, rb'))))"

text \<open>
  \<open>RingBuffer::read(uint8_t*, uint32_t)\<close>. \<open>data\<close> is the caller's destination memory
  (\<open>None\<close> for the null pointer); the result is the count, the destination after the
  copy and the buffer.
\<close>

definition read :: "bool \<Rightarrow> RingBuffer \<Rightarrow> u8 list option \<Rightarrow> u32 \<Rightarrow> fault + (u32 \<times> u8 list option \<times> RingBuffer)" where
  "read ndebug rb data len =
     (case data of
        None \<Rightarrow> Inr (0, data, rb)
      | Some dst \<Rightarrow>
          if len = 0 then Inr (0, data, rb)
          else if buffered_bytes_m rb = 0 then Inr (0, data, rb)
          else
            let temp_read_idx = read_index_m rb AND index_mask rb
            in (case buffered_bytes ndebug rb of
               Inl f \<Rightarrow> Inl f
             | Inr bb \<Rightarrow>
                 let read_bytes = min len bb;
                     copied =
                       (if temp_read_idx + read_bytes > capacity rb
                        then
                          let left = unat (capacity rb - temp_read_idx)
                          in (case memcpy dst 0 (buffer_m rb) (unat temp_read_idx) left of
                                None \<Rightarrow> None
                              | Some d1 \<Rightarrow> memcpy d1 left (buffer_m rb) 0 (unat read_bytes - left))
                        else memcpy dst 0 (buffer_m rb) (unat temp_read_idx) (unat read_bytes))
                 in (case copied of
                       None \<Rightarrow> Inl OutOfBounds
                     | Some dst' \<Rightarrow>
                         let rb' = rb\<lparr>read_index_m := temp_read_idx + read_bytes,
                                      buffered_bytes_m := buffered_bytes_m rb - read_bytes\<rparr>
                         in if \<not> ndebug \<and> buffered_bytes_m rb' <s 0 then Inl AssertionFailed
                            else Inr (read_bytes, Some dst', rb'))))"

text \<open>
  \<open>RingBuffer::read(uint32_t, ReceiveCallback&&)\<close>. The callback is a function of the
  caller's state \<open>'u\<close>, the bytes it is shown and their count; it returns its verdict and
  the caller's new state. It does not reach the buffer itself: the window in which the
  source releases its lock is not modelled.
\<close>

type_synonym 'u ReceiveCallback = "'u \<Rightarrow> u8 list \<Rightarrow> u32 \<Rightarrow> bool \<times> 'u"

definition read_cb :: "bool \<Rightarrow> RingBuffer \<Rightarrow> u32 \<Rightarrow> 'u ReceiveCallback \<Rightarrow> 'u \<Rightarrow> fault + (u32 \<times> 'u \<times> RingBuffer)" where
  "read_cb ndebug rb len recv_cb u =
     (if len = 0 then Inr (0, u, rb)
      else if buffered_bytes_m rb = 0 then Inr (0, u, rb)
      else
        let temp_read_idx = read_index_m rb AND index_mask rb
        in (case buffered_bytes ndebug rb of
           Inl f \<Rightarrow> Inl f
         | Inr bb \<Rightarrow>
             let read_bytes = min len bb;
                 shown =
                   (if temp_read_idx + read_bytes > capacity rb
                    then
                      let left = unat (capacity rb - temp_read_idx);
                          temp_buffer = replicate (unat read_bytes) (0 :: u8)
                      in (case memcpy temp_buffer 0 (buffer_m rb) (unat temp_read_idx) left of
                            None \<Rightarrow> None
                          | Some t1 \<Rightarrow> memcpy t1 left (buffer_m rb) 0 (unat read_bytes - left))
                    else
                      if unat temp_read_idx + unat read_bytes \<le> length (buffer_m rb)
                      then Some (take (unat read_bytes) (drop (unat temp_read_idx) (buffer_m rb)))
                      else None)
             in (case shown of
                   None \<Rightarrow> Inl OutOfBounds
                 | Some view \<Rightarrow>
                     let (read_ok, u') = recv_cb u view read_bytes
                     in if read_ok
                        then
                          let rb' = rb\<lparr>read_index_m := temp_read_idx + read_bytes,
                                       buffered_bytes_m := buffered_bytes_m rb - read_bytes\<rparr>
                          in if \<not> ndebug \<and> buffered_bytes_m rb' <s 0 then Inl AssertionFailed
                             else Inr (read_bytes, u', rb')
                        else Inr (0, u', rb))))"

definition clear :: "RingBuffer \<Rightarrow> RingBuffer" where
  "clear rb = rb\<lparr>read_index_m := 0, write_index_m := 0, buffered_bytes_m := 0\<rparr>"

definition drain :: "bool \<Rightarrow> RingBuffer \<Rightarrow> u32 \<Rightarrow> fault + RingBuffer" where
  "drain ndebug rb len =
     (let temp_read_idx = read_index_m rb AND index_mask rb
      in (case buffered_bytes ndebug rb of
         Inl f \<Rightarrow> Inl f
       | Inr bb \<Rightarrow>
           let read_bytes = min len bb;
               rb' = rb\<lparr>read_index_m := (temp_read_idx + read_bytes) AND index_mask rb,
                        buffered_bytes_m := buffered_bytes_m rb - read_bytes\<rparr>
           in if \<not> ndebug \<and> buffered_bytes_m rb' <s 0 then Inl AssertionFailed
              else Inr rb'))"

text \<open>
  The class invariant: the storage has \<open>2 ^ k\<close> bytes with \<open>k \<le> 30\<close> (so that the
  count fits the \<open>int32_t\<close> member), the mask is the capacity minus one, the count
  is at most the capacity, and the write position is the read position plus the
  count, modulo the capacity.
\<close>

definition rb_inv :: "RingBuffer \<Rightarrow> bool" where
  "rb_inv rb \<longleftrightarrow>
     (\<exists>k<31. length (buffer_m rb) = 2 ^ k)
     \<and> index_mask rb = of_nat (length (buffer_m rb)) - 1
     \<and> unat (buffered_bytes_m rb) \<le> length (buffer_m rb)
     \<and> write_index_m rb AND index_mask rb
         = (read_index_m rb + buffered_bytes_m rb) AND index_mask rb"

text \<open>The buffered bytes, oldest first: what the store holds for its readers.\<close>

definition contents :: "RingBuffer \<Rightarrow> u8 list" where
  "contents rb =
     take (unat (buffered_bytes_m rb))
       (rotate (unat (read_index_m rb AND index_mask rb)) (buffer_m rb))"

subsection \<open>Sequences of operations\<close>

datatype rb_op = Write "u8 list option" u32 | Read "u8 list option" u32 | Drain u32

text \<open>
  One operation on the store, with two counters beside it: the lengths of the
  accepted writes and the amounts actually read or drained (the local
  \<open>read_bytes\<close> of the source).
\<close>

fun apply_op :: "bool \<Rightarrow> RingBuffer \<times> nat \<times> nat \<Rightarrow> rb_op \<Rightarrow> fault + (RingBuffer \<times> nat \<times> nat)" where
  "apply_op ndebug (rb, written, consumed) (Write data len) =
     (case write_rb ndebug rb data len of
        Inl f \<Rightarrow> Inl f
      | Inr (err, rb') \<Rightarrow>
          Inr (rb', if err = Success then written + unat len else written, consumed))"
| "apply_op ndebug (rb, written, consumed) (Read data len) =
     (case read ndebug rb data len of
        Inl f \<Rightarrow> Inl f
      | Inr (n, data', rb') \<Rightarrow> Inr (rb', written, consumed + unat n))"
| "apply_op ndebug (rb, written, consumed) (Drain len) =
     (case drain ndebug rb len of
        Inl f \<Rightarrow> Inl f
      | Inr rb' \<Rightarrow> Inr (rb', written, consumed + unat (min len (buffered_bytes_m rb))))"

fun run_ops :: "bool \<Rightarrow> RingBuffer \<times> nat \<times> nat \<Rightarrow> rb_op list \<Rightarrow> fault + (RingBuffer \<times> nat \<times> nat)" where
  "run_ops ndebug s [] = Inr s"
| "run_ops ndebug s (x # xs) =
     (case apply_op ndebug s x of Inl f \<Rightarrow> Inl f | Inr s' \<Rightarrow> run_ops ndebug s' xs)"

text \<open>
  What a caller owes: a write no longer than the free space, from memory that holds
  the bytes it announces; a read into memory that has room for the length it asks.
\<close>

fun op_fits :: "RingBuffer \<Rightarrow> rb_op \<Rightarrow> bool" where
  "op_fits rb (Write data len) =
     (unat len \<le> length (buffer_m rb) - unat (buffered_bytes_m rb)
      \<and> (case data of None \<Rightarrow> True | Some src \<Rightarrow> unat len \<le> length src))"
| "op_fits rb (Read data len) =
     (case data of None \<Rightarrow> True | Some dst \<Rightarrow> unat len \<le> length dst)"
| "op_fits rb (Drain len) = True"

fun ops_fit :: "bool \<Rightarrow> RingBuffer \<times> nat \<times> nat \<Rightarrow> rb_op list \<Rightarrow> bool" where
  "ops_fit ndebug s [] = True"
| "ops_fit ndebug s (x # xs) =
     (op_fits (fst s) x
      \<and> (case apply_op ndebug s x of Inl f \<Rightarrow> True | Inr s' \<Rightarrow> ops_fit ndebug s' xs))"

text \<open>A byte sequence written chunk by chunk, and read back in pieces of given lengths.\<close>

fun write_all :: "bool \<Rightarrow> RingBuffer \<Rightarrow> u8 list list \<Rightarrow> fault + (error_code list \<times> RingBuffer)" where
  "write_all ndebug rb [] = Inr ([], rb)"
| "write_all ndebug rb (c # cs) =
     (case write_rb ndebug rb (Some c) (of_nat (length c)) of
        Inl f \<Rightarrow> Inl f
      | Inr (err, rb') \<Rightarrow>
          (case write_all ndebug rb' cs of
             Inl f \<Rightarrow> Inl f
           | Inr (errs, rb'') \<Rightarrow> Inr (err # errs, rb'')))"

fun read_all :: "bool \<Rightarrow> RingBuffer \<Rightarrow> nat list \<Rightarrow> fault + (u8 list \<times> RingBuffer)" where
  "read_all ndebug rb [] = Inr ([], rb)"
| "read_all ndebug rb (l # ls) =
     (case read ndebug rb (Some (replicate l 0)) (of_nat l) of
        Inl f \<Rightarrow> Inl f
      | Inr (n, data', rb') \<Rightarrow>
          (case read_all ndebug rb' ls of
             Inl f \<Rightarrow> Inl f
           | Inr (bytes, rb'') \<Rightarrow>
               Inr (take (unat n) (case data' of None \<Rightarrow> [] | Some d \<Rightarrow> d) @ bytes, rb'')))"

section \<open>The streaming parser (streaming\_parser.h)\<close>

subsection \<open>The header type and its length field\<close>

text \<open>
  The template parameter \<open>ProtoHeader\<close> is known to the parser by its size, by the
  place of its member \<open>body_length\<close> and by the type of that member, \<open>uint16_t\<close> or
  \<open>uint32_t\<close> (the \<open>static_assert\<close>). A header object is its memory, a list of
  \<open>sizeof(ProtoHeader)\<close> bytes; the byte order of the machine decides which number a
  member holds.
\<close>

record ProtoHeader =
  sizeof_header :: nat
  offsetof_body_length :: nat
  body_length_is_u32 :: bool
  little_endian_host :: bool

definition protocol_header_length :: "ProtoHeader \<Rightarrow> u32" where
  "protocol_header_length P = of_nat (sizeof_header P)"

definition sizeof_body_length :: "ProtoHeader \<Rightarrow> nat" where
  "sizeof_body_length P = (if body_length_is_u32 P then 4 else 2)"

definition load_u16 :: "bool \<Rightarrow> u8 list \<Rightarrow> u16" where
  "load_u16 le bs =
     (if le then push_bit 8 (ucast (bs ! 1)) OR ucast (bs ! 0)
      else push_bit 8 (ucast (bs ! 0)) OR ucast (bs ! 1))"

definition store_u16 :: "bool \<Rightarrow> u16 \<Rightarrow> u8 list" where
  "store_u16 le v =
     (if le then [ucast v, ucast (drop_bit 8 v)] else [ucast (drop_bit 8 v), ucast v])"

definition load_u32 :: "bool \<Rightarrow> u8 list \<Rightarrow> u32" where
  "load_u32 le bs =
     (if le
      then push_bit 24 (ucast (bs ! 3)) OR push_bit 16 (ucast (bs ! 2))
           OR push_bit 8 (ucast (bs ! 1)) OR ucast (bs ! 0)
      else push_bit 24 (ucast (bs ! 0)) OR push_bit 16 (ucast (bs ! 1))
           OR push_bit 8 (ucast (bs ! 2)) OR ucast (bs ! 3))"

definition store_u32 :: "bool \<Rightarrow> u32 \<Rightarrow> u8 list" where
  "store_u32 le v =
     (if le then [ucast v, ucast (drop_bit 8 v), ucast (drop_bit 16 v), ucast (drop_bit 24 v)]
      else [ucast (drop_bit 24 v), ucast (drop_bit 16 v), ucast (drop_bit 8 v), ucast v])"

text \<open>
  \<open>ntohs\<close> and \<open>ntohl\<close> of \<open><arpa/inet.h>\<close>: the argument is a number whose
  bytes, as this machine holds them, spell a number in network (big-endian) order;
  the result is that number. On a big-endian machine this is the identity, on a
  little-endian one the reversal of the bytes.
\<close>

definition ntohs :: "bool \<Rightarrow> u16 \<Rightarrow> u16" where
  "ntohs le v = load_u16 False (store_u16 le v)"

definition ntohl :: "bool \<Rightarrow> u32 \<Rightarrow> u32" where
  "ntohl le v = load_u32 False (store_u32 le v)"

text \<open>Reading and assigning the member \<open>body_length\<close> of a header object.\<close>

definition body_length :: "ProtoHeader \<Rightarrow> u8 list \<Rightarrow> u32" where
  "body_length P h =
     (if body_length_is_u32 P
      then load_u32 (little_endian_host P) (take 4 (drop (offsetof_body_length P) h))
      else ucast (load_u16 (little_endian_host P) (take 2 (drop (offsetof_body_length P) h))))"

definition set_body_length :: "ProtoHeader \<Rightarrow> u8 list \<Rightarrow> u32 \<Rightarrow> u8 list" where
  "set_body_length P h v =
     take (offsetof_body_length P) h
     @ (if body_length_is_u32 P then store_u32 (little_endian_host P) v
        else store_u16 (little_endian_host P) (ucast v))
     @ drop (offsetof_body_length P + sizeof_body_length P) h"

definition DoBytesOrderConversion :: "ProtoHeader \<Rightarrow> u8 list \<Rightarrow> u8 list" where
  "DoBytesOrderConversion P header =
     (if sizeof_body_length P = 2
      then set_body_length P header
             (ucast (ntohs (little_endian_host P) (ucast (body_length P header))))
      else if sizeof_body_length P = 4
      then set_body_length P header (ntohl (little_endian_host P) (body_length P header))
      else header)"

text \<open>The number that the bytes of the length field spell in network byte order.\<close>

definition wire_length :: "ProtoHeader \<Rightarrow> u8 list \<Rightarrow> u32" where
  "wire_length P bytes =
     (if body_length_is_u32 P
      then load_u32 False (take 4 (drop (offsetof_body_length P) bytes))
      else ucast (load_u16 False (take 2 (drop (offsetof_body_length P) bytes))))"

subsection \<open>The parser\<close>

datatype RecvState = READ_HEADER | READ_BODY

text \<open>
  The handlers are functions of the caller's state \<open>'u\<close>: they return their verdict
  and the caller's new state.
\<close>

type_synonym 'u HeaderHandler = "'u \<Rightarrow> u8 list \<Rightarrow> bool \<times> 'u"
type_synonym 'u BodyHandler = "'u \<Rightarrow> u8 list \<Rightarrow> u32 \<Rightarrow> bool \<times> 'u"

record 'u StreamingParser =
  recv_state_m :: RecvState
  current_header_m :: "u8 list"
  header_handler_m :: "'u HeaderHandler"
  body_handler_m :: "'u BodyHandler"
  recv_buffer_m :: RingBuffer

text \<open>
  The constructor. \<open>current_header_\<close> has no initialiser: its first content \<open>h0\<close> is
  whatever the memory holds.
\<close>

definition StreamingParser_new ::
  "bool \<Rightarrow> 'u HeaderHandler \<Rightarrow> 'u BodyHandler \<Rightarrow> u8 list \<Rightarrow> fault + 'u StreamingParser" where
  "StreamingParser_new ndebug header_handler body_handler h0 =
     (case RingBuffer_default ndebug of
        Inl f \<Rightarrow> Inl f
      | Inr rb \<Rightarrow>
          Inr \<lparr>recv_state_m = READ_HEADER, current_header_m = h0,
               header_handler_m = header_handler, body_handler_m = body_handler,
               recv_buffer_m = rb\<rparr>)"

text \<open>
  \<open>PerformStreamingParse\<close>: one transition. The result \<open>True\<close> says that the bytes
  for the next field have not arrived.
\<close>

definition PerformStreamingParse ::
  "bool \<Rightarrow> ProtoHeader \<Rightarrow> 'u StreamingParser \<Rightarrow> 'u \<Rightarrow> fault + (bool \<times> 'u \<times> 'u StreamingParser)" where
  "PerformStreamingParse ndebug P ps u =
     (case recv_state_m ps of
        READ_HEADER \<Rightarrow>
          (case buffered_bytes ndebug (recv_buffer_m ps) of
             Inl f \<Rightarrow> Inl f
           | Inr bb \<Rightarrow>
               if bb \<ge> protocol_header_length P
               then
                 (case read ndebug (recv_buffer_m ps) (Some (current_header_m ps))
                         (protocol_header_length P) of
                    Inl f \<Rightarrow> Inl f
                  | Inr (n, data', rb') \<Rightarrow>
                      let received = (case data' of None \<Rightarrow> current_header_m ps | Some d \<Rightarrow> d);
                          header = DoBytesOrderConversion P received;
                          (accepted, u') = header_handler_m ps u header
                      in Inr (False, u',
                              ps\<lparr>current_header_m := header, recv_buffer_m := rb',
                                 recv_state_m := READ_BODY\<rparr>))
               else Inr (True, u, ps))
      | READ_BODY \<Rightarrow>
          if \<not> ndebug \<and> \<not> body_length P (current_header_m ps) > 0 then Inl AssertionFailed
          else
            (case buffered_bytes ndebug (recv_buffer_m ps) of
               Inl f \<Rightarrow> Inl f
             | Inr bb \<Rightarrow>
                 if bb \<ge> body_length P (current_header_m ps)
                 then
                   (case read_cb ndebug (recv_buffer_m ps) (body_length P (current_header_m ps))
                           (body_handler_m ps) u of
                      Inl f \<Rightarrow> Inl f
                    | Inr (n, u', rb') \<Rightarrow>
                        Inr (False, u',
                             ps\<lparr>recv_buffer_m := rb', recv_state_m := READ_HEADER,
                                current_header_m := set_body_length P (current_header_m ps) 0\<rparr>))
                 else Inr (True, u, ps)))"

text \<open>The condition of the \<open>while\<close> loop of \<open>HandleData\<close>, with its short-circuit order.\<close>

definition loop_condition :: "bool \<Rightarrow> ProtoHeader \<Rightarrow> 'u StreamingParser \<Rightarrow> fault + bool" where
  "loop_condition ndebug P ps =
     (case recv_state_m ps of
        READ_HEADER \<Rightarrow>
          (case buffered_bytes ndebug (recv_buffer_m ps) of
             Inl f \<Rightarrow> Inl f
           | Inr bb \<Rightarrow> Inr (bb \<ge> protocol_header_length P))
      | READ_BODY \<Rightarrow>
          (case buffered_bytes ndebug (recv_buffer_m ps) of
             Inl f \<Rightarrow> Inl f
           | Inr bb \<Rightarrow> Inr (bb \<ge> body_length P (current_header_m ps))))"

text \<open>The loop itself. It has no bound of its own, so not returning is the value \<open>None\<close>.\<close>

partial_function (option) parse_loop ::
  "bool \<Rightarrow> ProtoHeader \<Rightarrow> 'u StreamingParser \<Rightarrow> 'u \<Rightarrow> (fault + ('u \<times> 'u StreamingParser)) option" where
  "parse_loop ndebug P ps u =
     (case loop_condition ndebug P ps of
        Inl f \<Rightarrow> Some (Inl f)
      | Inr go \<Rightarrow>
          if go
          then
            (case PerformStreamingParse ndebug P ps u of
               Inl f \<Rightarrow> Some (Inl f)
             | Inr (waiting, u', ps') \<Rightarrow>
                 if waiting then Some (Inr (u', ps')) else parse_loop ndebug P ps' u')
          else Some (Inr (u, ps)))"

definition HandleData ::
  "bool \<Rightarrow> ProtoHeader \<Rightarrow> 'u StreamingParser \<Rightarrow> 'u \<Rightarrow> u8 list option \<Rightarrow> u32
     \<Rightarrow> (fault + (bool \<times> 'u \<times> 'u StreamingParser)) option" where
  "HandleData ndebug P ps u data len =
     (case write_rb ndebug (recv_buffer_m ps) data len of
        Inl f \<Rightarrow> Some (Inl f)
      | Inr (err, rb') \<Rightarrow>
          if err = ErrBufferOverflow then Some (Inr (False, u, ps\<lparr>recv_buffer_m := rb'\<rparr>))
          else
            (case parse_loop ndebug P (ps\<lparr>recv_buffer_m := rb'\<rparr>) u of
               None \<Rightarrow> None
             | Some (Inl f) \<Rightarrow> Some (Inl f)
             | Some (Inr (u', ps')) \<Rightarrow> Some (Inr (True, u', ps'))))"

text \<open>A stream delivered as a sequence of chunks, one \<open>HandleData\<close> call for each.\<close>

fun feed ::
  "bool \<Rightarrow> ProtoHeader \<Rightarrow> 'u StreamingParser \<Rightarrow> 'u \<Rightarrow> u8 list list
     \<Rightarrow> (fault + (bool list \<times> 'u \<times> 'u StreamingParser)) option" where
  "feed ndebug P ps u [] = Some (Inr ([], u, ps))"
| "feed ndebug P ps u (c # cs) =
     (case HandleData ndebug P ps u (Some c) (of_nat (length c)) of
        None \<Rightarrow> None
      | Some (Inl f) \<Rightarrow> Some (Inl f)
      | Some (Inr (r, u', ps')) \<Rightarrow>
          (case feed ndebug P ps' u' cs of
             None \<Rightarrow> None
           | Some (Inl f) \<Rightarrow> Some (Inl f)
           | Some (Inr (rs, u'', ps'')) \<Rightarrow> Some (Inr (r # rs, u'', ps''))))"

text \<open>
  Handlers that keep a log of their invocations as the caller's state, the way the
  handlers of the tests print what they are given.
\<close>

datatype event = HeaderEvent "u8 list" | BodyEvent "u8 list" u32

definition log_header :: "bool \<Rightarrow> event list HeaderHandler" where
  "log_header verdict log header = (verdict, log @ [HeaderEvent header])"

definition log_body :: "bool \<Rightarrow> event list BodyHandler" where
  "log_body verdict log data len = (verdict, log @ [BodyEvent data len])"

text \<open>
  The states a parser can be in: the header type is laid out sensibly, the store is
  the default one of 2048 bytes and satisfies its invariant, and the header object
  has the size of its type.
\<close>

definition layout_ok :: "ProtoHeader \<Rightarrow> bool" where
  "layout_ok P \<longleftrightarrow>
     offsetof_body_length P + sizeof_body_length P \<le> sizeof_header P
     \<and> sizeof_header P < 2 ^ 32"

definition parser_inv :: "ProtoHeader \<Rightarrow> 'u StreamingParser \<Rightarrow> bool" where
  "parser_inv P ps \<longleftrightarrow>
     layout_ok P
     \<and> rb_inv (recv_buffer_m ps)
     \<and> length (buffer_m (recv_buffer_m ps)) = 2048
     \<and> length (current_header_m ps) = sizeof_header P"

text \<open>
  What a parser looks like between two \<open>HandleData\<close> calls when it has been given
  the first \<open>n\<close> bytes of one message, a header \<open>hdr\<close> followed by a body \<open>body\<close>:
  the frame is held back in the store until its last byte is there, and the
  caller's state \<open>u\<close> tells which of the handlers \<open>hh\<close> and \<open>bh\<close> have been called
  since it was \<open>u0\<close>.
\<close>

definition delivered ::
  "ProtoHeader \<Rightarrow> u8 list \<Rightarrow> u8 list \<Rightarrow> 'u HeaderHandler \<Rightarrow> 'u BodyHandler \<Rightarrow> 'u \<Rightarrow> nat
     \<Rightarrow> 'u StreamingParser \<Rightarrow> 'u \<Rightarrow> bool" where
  "delivered P hdr body hh bh u0 n ps u \<longleftrightarrow>
     parser_inv P ps
     \<and> header_handler_m ps = hh
     \<and> body_handler_m ps = bh
     \<and> (if n < sizeof_header P
         then recv_state_m ps = READ_HEADER
              \<and> contents (recv_buffer_m ps) = take n (hdr @ body)
              \<and> u = u0
         else if n < sizeof_header P + length body
         then recv_state_m ps = READ_BODY
              \<and> current_header_m ps = DoBytesOrderConversion P hdr
              \<and> contents (recv_buffer_m ps) = drop (sizeof_header P) (take n (hdr @ body))
              \<and> u = snd (hh u0 (DoBytesOrderConversion P hdr))
         else recv_state_m ps = READ_HEADER
              \<and> contents (recv_buffer_m ps) = []
              \<and> u = snd (bh (snd (hh u0 (DoBytesOrderConversion P hdr))) body
                            (of_nat (length body))))"

text \<open>What decreases with every transition of the loop.\<close>

definition loop_measure :: "'u StreamingParser \<Rightarrow> nat" where
  "loop_measure ps =
     2 * unat (buffered_bytes_m (recv_buffer_m ps))
     + (case recv_state_m ps of READ_HEADER \<Rightarrow> 0 | READ_BODY \<Rightarrow> 1)"

text \<open>
  Whether the loop of \<open>HandleData\<close>, run with the assertions compiled out,
  comes to a transition in the state \<open>READ_BODY\<close> while \<open>current_header_.body_length\<close>
  is 0: the transition at which \<open>assert(current_header_.body_length > 0)\<close> stands.
  It follows the loop step by step and stops where the loop stops.
\<close>

partial_function (option) meets_empty_body ::
  "ProtoHeader \<Rightarrow> 'u StreamingParser \<Rightarrow> 'u \<Rightarrow> bool option" where
  "meets_empty_body P ps u =
     (case loop_condition True P ps of
        Inl f \<Rightarrow> Some False
      | Inr go \<Rightarrow>
          if go
          then
            if recv_state_m ps = READ_BODY \<and> body_length P (current_header_m ps) = 0
            then Some True
            else
              (case PerformStreamingParse True P ps u of
                 Inl f \<Rightarrow> Some False
               | Inr (waiting, u', ps') \<Rightarrow>
                   if waiting then Some False else meets_empty_body P ps' u')
          else Some False)"

section \<open>Lists as rings\<close>

lemma mod_add_if: "a + b < 2 * (N::nat) \<Longrightarrow> (a + b) mod N = (if a + b < N then a + b else a + b - N)"
  by (simp add: mod_if le_mod_geq)

lemma nth_splice:
  assumes "w + l \<le> length buf" "l \<le> length src" "j < length buf"
  shows "(take w buf @ take l src @ drop (w + l) buf) ! j
       = (if w \<le> j \<and> j < w + l then src ! (j - w) else buf ! j)"
  using assms by (auto simp add: nth_append min_def)

lemma put_nowrap:
  assumes N: "length buf = N" and r: "r < N" and bl: "b + l \<le> N"
    and w: "w = (r + b) mod N" and nw: "w + l \<le> N" and src: "l \<le> length src"
  shows "rotate r (take w buf @ take l src @ drop (w + l) buf)
       = take b (rotate r buf) @ take l src @ drop (b + l) (rotate r buf)"
proof (rule nth_equalityI)
  show "length (rotate r (take w buf @ take l src @ drop (w + l) buf)) =
    length (take b (rotate r buf) @ take l src @ drop (b + l) (rotate r buf))"
    using assms by simp
next
  fix i assume "i < length (rotate r (take w buf @ take l src @ drop (w + l) buf))"
  then have i: "i < N" using assms by simp
  have len: "length (take w buf @ take l src @ drop (w + l) buf) = N"
    using assms by simp
  have L: "rotate r (take w buf @ take l src @ drop (w + l) buf) ! i
     = (take w buf @ take l src @ drop (w + l) buf) ! ((r + i) mod N)"
    using i len by (simp add: nth_rotate)
  have j: "(r + i) mod N < length buf" using N r by simp
  have L2: "(take w buf @ take l src @ drop (w + l) buf) ! ((r + i) mod N)
     = (if w \<le> (r + i) mod N \<and> (r + i) mod N < w + l then src ! ((r + i) mod N - w) else buf ! ((r + i) mod N))"
    using nth_splice[OF _ src j, of w] nw N by simp
  have R: "(take b (rotate r buf) @ take l src @ drop (b + l) (rotate r buf)) ! i
     = (if b \<le> i \<and> i < b + l then src ! (i - b) else buf ! ((r + i) mod N))"
    using nth_splice[of b l "rotate r buf" src i] bl N src i by (simp add: nth_rotate)
  have key: "(w \<le> (r + i) mod N \<and> (r + i) mod N < w + l) = (b \<le> i \<and> i < b + l)"
    using r i bl nw unfolding w by (cases "r + b < N"; cases "r + i < N"; simp add: mod_add_if; linarith?)
  have key2: "b \<le> i \<Longrightarrow> i < b + l \<Longrightarrow> (r + i) mod N - w = i - b"
    using r i bl nw unfolding w by (cases "r + b < N"; cases "r + i < N"; simp add: mod_add_if; linarith?)
  show "rotate r (take w buf @ take l src @ drop (w + l) buf) ! i =
         (take b (rotate r buf) @ take l src @ drop (b + l) (rotate r buf)) ! i"
    unfolding L L2 R key using key2 by simp
qed


lemma put_wrap:
  assumes N: "length buf = N" and r: "r < N" and bl: "b + l \<le> N"
    and w: "w = (r + b) mod N" and nw: "w + l > N" and src: "l \<le> length src"
  shows "rotate r (take (l - (N - w)) (drop (N - w) src) @ drop (l - (N - w)) (take w buf @ take (N - w) src @ drop (w + (N - w)) buf))
       = take b (rotate r buf) @ take l src @ drop (b + l) (rotate r buf)"
proof -
  have wN: "w < N" using r w by simp
  have rb: "r + b < N"
  proof (rule ccontr)
    assume "\<not> r + b < N"
    then have "w = r + b - N" using r bl w by (simp add: mod_add_if)
    then show False using nw bl r by linarith
  qed
  then have w': "w = r + b" using w by simp
  let ?buf' = "take (l - (N - w)) (drop (N - w) src) @ drop (l - (N - w)) (take w buf @ take (N - w) src @ drop (w + (N - w)) buf)"
  have len: "length ?buf' = N" using N wN nw src bl by simp
  define m where "m = l - (N - w)"
  have m: "m \<le> w" "N - w + m = l" "m \<le> N" using wN nw bl by (simp_all add: m_def)
  have lsrc: "length (take (N - w) src) = N - w" "length (take m (drop (N - w) src)) = m"
    using src m by simp_all
  have shape: "?buf' = take m (drop (N - w) src) @ drop m (take w buf) @ take (N - w) src"
    using N wN m(1) by (simp add: m_def)
  have nthb: "?buf' ! j = (if j < m then src ! (N - w + j) else if w \<le> j then src ! (j - w) else buf ! j)" if "j < N" for j
  proof -
    let ?A = "take m (drop (N - w) src)" and ?B = "drop m (take w buf)" and ?C = "take (N - w) src"
    have lenA: "length ?A = m" and lenB: "length ?B = w - m" and lenC: "length ?C = N - w"
      using N wN lsrc by simp_all
    consider "j < m" | "m \<le> j" "j < w" | "w \<le> j" by linarith
    then show ?thesis
    proof cases
      case 1
      then have "(?A @ ?B @ ?C) ! j = ?A ! j" by (simp only: nth_append lenA if_True)
      also have "\<dots> = src ! (N - w + j)" using 1 src m(2) by simp
      finally show ?thesis unfolding shape using 1 by simp
    next
      case 2
      then have "\<not> j < m" "j - m < w - m" by simp_all
      then have "(?A @ ?B @ ?C) ! j = ?B ! (j - m)" by (simp only: nth_append lenA lenB if_True if_False)
      also have "\<dots> = buf ! j" using 2 N wN m(1) by simp
      finally show ?thesis unfolding shape using 2 by simp
    next
      case 3
      then have "\<not> j < m" "\<not> j - m < w - m" using m(1) by simp_all
      then have "(?A @ ?B @ ?C) ! j = ?C ! (j - m - (w - m))"
        by (simp only: nth_append lenA lenB if_True if_False)
      also have "\<dots> = src ! (j - w)" using 3 m(1) that by simp
      finally show ?thesis unfolding shape using 3 m(1) by simp
    qed
  qed
  show ?thesis
  proof (rule nth_equalityI)
    have "length (take b (rotate r buf) @ take l src @ drop (b + l) (rotate r buf)) = N"
      using N bl src by simp
    then show "length (rotate r ?buf') = length (take b (rotate r buf) @ take l src @ drop (b + l) (rotate r buf))"
      by (simp only: length_rotate len)
  next
    fix i assume "i < length (rotate r ?buf')"
    then have i: "i < N" by (simp only: length_rotate len)
    have L: "rotate r ?buf' ! i = ?buf' ! ((r + i) mod N)"
      using i nth_rotate[of i ?buf' r] by (simp only: len)
    have R: "(take b (rotate r buf) @ take l src @ drop (b + l) (rotate r buf)) ! i
       = (if b \<le> i \<and> i < b + l then src ! (i - b) else buf ! ((r + i) mod N))"
      using nth_splice[of b l "rotate r buf" src i] bl N src i by (simp add: nth_rotate)
    have jN: "(r + i) mod N < N" using r by simp
    show "rotate r ?buf' ! i = (take b (rotate r buf) @ take l src @ drop (b + l) (rotate r buf)) ! i"
    proof (cases "r + i < N")
      case True
      then have j: "(r + i) mod N = r + i" by simp
      have nm: "\<not> r + i < m" using bl by (simp add: m_def w')
      have iff: "(w \<le> r + i) = (b \<le> i \<and> i < b + l)" using True nw by (auto simp add: w')
      have idx: "b \<le> i \<Longrightarrow> r + i - w = i - b" by (simp add: w')
      have X: "?buf' ! (r + i) = (if r + i < m then src ! (N - w + (r + i)) else if w \<le> r + i then src ! (r + i - w) else buf ! (r + i))"
        by (rule nthb) (rule True)
      have "rotate r ?buf' ! i = (if r + i < m then src ! (N - w + (r + i)) else if w \<le> r + i then src ! (r + i - w) else buf ! (r + i))"
        unfolding L j by (rule X)
      then show ?thesis unfolding R j using nm iff idx by simp
    next
      case False
      then have j: "(r + i) mod N = r + i - N" using r i by (simp add: mod_add_if)
      have bi: "b \<le> i" using False rb by simp
      have iff: "(r + i - N < m) = (i < b + l)" using False nw rb unfolding m_def w' by linarith
      have nw2: "\<not> w \<le> r + i - N" using False i by (simp add: w')
      have idx: "i < b + l \<Longrightarrow> N - w + (r + i - N) = i - b" using False rb bi by (simp add: w')
      have lt: "r + i - N < N" using r i by simp
      have X: "?buf' ! (r + i - N) = (if r + i - N < m then src ! (N - w + (r + i - N)) else if w \<le> r + i - N then src ! (r + i - N - w) else buf ! (r + i - N))"
        by (rule nthb) (rule lt)
      have "rotate r ?buf' ! i = (if r + i - N < m then src ! (N - w + (r + i - N)) else if w \<le> r + i - N then src ! (r + i - N - w) else buf ! (r + i - N))"
        unfolding L j by (rule X)
      then show ?thesis unfolding R j using bi iff nw2 idx by simp
    qed
  qed
qed


lemma pow2_lt_31: "k < 31 \<Longrightarrow> (2::nat) ^ k < 2 ^ 31"
  by (rule power_strict_increasing) simp_all

lemma unat_of_nat_u32: "n < 2 ^ 32 \<Longrightarrow> unat (of_nat n :: u32) = n"
  by (rule of_nat_inverse[OF refl]) simp

lemma unat_and_mask: "unat ((x :: u32) AND mask k) = unat x mod 2 ^ k"
proof -
  have "unat (x AND mask k) = unat (take_bit k x)" by (simp add: take_bit_eq_mask)
  also have "\<dots> = take_bit k (unat x)" by (simp add: unsigned_take_bit_eq)
  also have "\<dots> = unat x mod 2 ^ k" by (simp add: take_bit_eq_mod)
  finally show ?thesis .
qed

lemma not_sless_zero: 
  assumes "unat (x :: u32) < 2 ^ 31" shows "\<not> x <s 0"
proof -
  have "int (unat x) < int (2 ^ 31)" using assms by (simp only: of_nat_less_iff)
  then have a: "uint x < 2 ^ 31" by simp
  have b: "- (2 ^ 31) \<le> uint x" by (rule order_trans[of _ 0]) simp_all
  have "signed_take_bit 31 (uint x) = uint x"
    by (rule signed_take_bit_int_eq_self[OF b a])
  then have "sint x = uint x"
    by (simp add: sint_uint)
  then show ?thesis by (simp add: word_sless_alt)
qed

text \<open>The invariant, unpacked into natural numbers.\<close>

lemma rb_inv_pow:
  assumes "rb_inv rb"
  obtains k where "k < 31" "length (buffer_m rb) = 2 ^ k" "index_mask rb = mask k"
    "unat (capacity rb) = 2 ^ k" "unat (buffered_bytes_m rb) \<le> 2 ^ k"
    "write_index_m rb AND mask k = (read_index_m rb + buffered_bytes_m rb) AND mask k"
proof -
  from assms obtain k where k: "k < 31" "length (buffer_m rb) = 2 ^ k"
    by (auto simp: rb_inv_def)
  have m: "index_mask rb = mask k"
    using assms k by (simp add: rb_inv_def mask_eq_exp_minus_1)
  have "(2::nat) ^ k < 2 ^ 32" using pow2_lt_31[OF k(1)] by simp
  then have "unat (of_nat (length (buffer_m rb)) :: u32) = length (buffer_m rb)"
    unfolding k(2) by (rule unat_of_nat_u32)
  then have c: "unat (capacity rb) = 2 ^ k"
    by (simp only: capacity_def k(2))
  have b: "unat (buffered_bytes_m rb) \<le> 2 ^ k"
    using assms k(2) by (simp add: rb_inv_def)
  have "write_index_m rb AND index_mask rb
      = (read_index_m rb + buffered_bytes_m rb) AND index_mask rb"
    using assms unfolding rb_inv_def by blast
  then have w: "write_index_m rb AND mask k = (read_index_m rb + buffered_bytes_m rb) AND mask k"
    by (simp only: m)
  show thesis by (rule that[OF k m c b w])
qed

lemma buffered_bytes_ok:
  assumes "rb_inv rb" shows "buffered_bytes ndebug rb = Inr (buffered_bytes_m rb)"
proof -
  from assms obtain k where k: "k < 31" "unat (buffered_bytes_m rb) \<le> 2 ^ k"
    by (rule rb_inv_pow)
  have "unat (buffered_bytes_m rb) < 2 ^ 31" using k pow2_lt_31[OF k(1)] by linarith
  then show ?thesis by (simp add: buffered_bytes_def not_sless_zero)
qed

lemma unat_add_mod_pow: 
  fixes x y :: u32
  assumes "k \<le> 32" 
  shows "unat ((x + y) AND mask k) = (unat (x AND mask k) + unat y) mod 2 ^ k"
proof -
  have d: "(2::nat) ^ k dvd 2 ^ 32" using assms by (rule le_imp_power_dvd)
  have "unat (x + y) = (unat x + unat y) mod 2 ^ 32"
    by (simp add: unat_word_ariths)
  then have "unat ((x + y) AND mask k) = ((unat x + unat y) mod 2 ^ 32) mod 2 ^ k"
    by (simp only: unat_and_mask)
  also have "\<dots> = (unat x + unat y) mod 2 ^ k" using d by (rule mod_mod_cancel)
  also have "\<dots> = (unat x mod 2 ^ k + unat y) mod 2 ^ k" by (simp only: mod_add_left_eq)
  finally show ?thesis by (simp only: unat_and_mask)
qed


lemma mask_add_left:
  fixes x y :: u32
  assumes "k \<le> 32"
  shows "((x AND mask k) + y) AND mask k = (x + y) AND mask k"
proof -
  have "unat (((x AND mask k) + y) AND mask k) = (unat ((x AND mask k) AND mask k) + unat y) mod 2 ^ k"
    by (rule unat_add_mod_pow[OF assms])
  also have "(x AND mask k) AND mask k = x AND mask k" by simp
  also have "(unat (x AND mask k) + unat y) mod 2 ^ k = unat ((x + y) AND mask k)"
    by (rule unat_add_mod_pow[OF assms, symmetric])
  finally show ?thesis by (simp only: word_unat_eq_iff)
qed



lemma write_copy_nowrap:
  assumes "w + l \<le> length buf" "l \<le> length src"
  shows "memcpy buf w src 0 l = Some (take w buf @ take l src @ drop (w + l) buf)"
  using assms by (simp add: memcpy_def)

lemma write_copy_wrap:
  assumes N: "length buf = N" and w: "w < N" and wrap: "N < w + l" and l: "l \<le> N"
    and src: "l \<le> length src"
  shows "(case memcpy buf w src 0 (N - w) of
            None \<Rightarrow> None
          | Some b1 \<Rightarrow> memcpy b1 0 src (N - w) (l - (N - w)))
       = Some (take (l - (N - w)) (drop (N - w) src)
               @ drop (l - (N - w)) (take w buf @ take (N - w) src @ drop (w + (N - w)) buf))"
proof -
  have 1: "memcpy buf w src 0 (N - w) = Some (take w buf @ take (N - w) src @ drop (w + (N - w)) buf)"
    using N w wrap src by (simp add: memcpy_def)
  have len1: "length (take w buf @ take (N - w) src @ drop (w + (N - w)) buf) = N"
    using N w wrap src by simp
  have 2: "memcpy (take w buf @ take (N - w) src @ drop (w + (N - w)) buf) 0 src (N - w) (l - (N - w))
      = Some (take (l - (N - w)) (drop (N - w) src)
               @ drop (l - (N - w)) (take w buf @ take (N - w) src @ drop (w + (N - w)) buf))"
    unfolding memcpy_def len1 using w wrap l src by simp
  show ?thesis unfolding 1 option.case 2 ..
qed

lemma write_rb_success:
  assumes inv: "rb_inv rb" and l0: "len \<noteq> 0"
    and fit: "unat (buffered_bytes_m rb) + unat len \<le> length (buffer_m rb)"
    and src: "unat len \<le> length src"
  obtains buf where
    "write_rb ndebug rb (Some src) len =
       Inr (Success, rb\<lparr>buffer_m := buf,
                         write_index_m := (write_index_m rb AND index_mask rb) + len,
                         buffered_bytes_m := buffered_bytes_m rb + len\<rparr>)"
    "length buf = length (buffer_m rb)"
    "rotate (unat (read_index_m rb AND index_mask rb)) buf =
       take (unat (buffered_bytes_m rb)) (rotate (unat (read_index_m rb AND index_mask rb)) (buffer_m rb))
       @ take (unat len) src
       @ drop (unat (buffered_bytes_m rb) + unat len)
           (rotate (unat (read_index_m rb AND index_mask rb)) (buffer_m rb))"
proof -
  from inv obtain k where k: "k < 31" and N: "length (buffer_m rb) = 2 ^ k"
    and m: "index_mask rb = mask k" and cap: "unat (capacity rb) = 2 ^ k"
    and bN: "unat (buffered_bytes_m rb) \<le> 2 ^ k"
    and wr: "write_index_m rb AND mask k = (read_index_m rb + buffered_bytes_m rb) AND mask k"
    by (rule rb_inv_pow)
  define b where "b = unat (buffered_bytes_m rb)"
  define l where "l = unat len"
  define r where "r = unat (read_index_m rb AND index_mask rb)"
  define w where "w = unat (write_index_m rb AND index_mask rb)"
  have N31: "(2::nat) ^ k < 2 ^ 31" by (rule pow2_lt_31[OF k])
  have rN: "r < 2 ^ k" unfolding r_def m unat_and_mask by simp
  have wN: "w < 2 ^ k" unfolding w_def m unat_and_mask by simp
  have bl: "b + l \<le> 2 ^ k" using fit by (simp add: b_def l_def N)
  have wrb: "w = (r + b) mod 2 ^ k"
    unfolding w_def r_def b_def m wr using k by (intro unat_add_mod_pow) simp
  have sum1: "unat (buffered_bytes_m rb + len) = b + l"
    using bl N31 unat_add_lem[of "buffered_bytes_m rb" len] by (simp add: b_def l_def)
  have noov: "\<not> capacity rb < buffered_bytes_m rb + len"
    using bl by (simp add: word_less_nat_alt cap sum1)
  have lN: "l \<le> 2 ^ k" using bl by simp
  have sum2: "unat ((write_index_m rb AND index_mask rb) + len) = w + l"
    using wN lN N31 unat_add_lem[of "write_index_m rb AND index_mask rb" len]
    by (simp add: w_def l_def)
  have wrapiff: "capacity rb < (write_index_m rb AND index_mask rb) + len \<longleftrightarrow> 2 ^ k < w + l"
    by (simp add: word_less_nat_alt cap sum2)
  have left: "unat (capacity rb - (write_index_m rb AND index_mask rb)) = 2 ^ k - w"
  proof -
    have "(write_index_m rb AND index_mask rb) \<le> capacity rb"
      using wN by (simp add: word_le_nat_alt cap w_def)
    then show ?thesis by (simp add: unat_sub cap w_def)
  qed
  have nneg: "\<not> buffered_bytes_m rb + len <s 0"
    by (rule not_sless_zero) (use sum1 bl N31 in simp)
  have bb: "buffered_bytes ndebug rb = Inr (buffered_bytes_m rb)"
    by (rule buffered_bytes_ok[OF inv])
  show thesis
  proof (cases "2 ^ k < w + l")
    case False
    let ?buf = "take w (buffer_m rb) @ take l src @ drop (w + l) (buffer_m rb)"
    have cp: "memcpy (buffer_m rb) w src 0 l = Some ?buf"
      using False src by (intro write_copy_nowrap) (simp_all add: N l_def)
    have res: "write_rb ndebug rb (Some src) len =
       Inr (Success, rb\<lparr>buffer_m := ?buf,
                         write_index_m := (write_index_m rb AND index_mask rb) + len,
                         buffered_bytes_m := buffered_bytes_m rb + len\<rparr>)"
      using l0 noov nneg False cp
      unfolding write_rb_def w_def l_def
      by (simp add: bb Let_def wrapiff[unfolded w_def l_def])
    have len: "length ?buf = length (buffer_m rb)"
      using False src by (simp add: N l_def)
    have rot: "rotate r ?buf = take b (rotate r (buffer_m rb)) @ take l src @ drop (b + l) (rotate r (buffer_m rb))"
      using False src by (intro put_nowrap[OF N rN bl wrb]) (simp_all add: l_def)
    show thesis
      by (rule that[OF res len]) (use rot in \<open>simp only: r_def b_def l_def\<close>)
  next
    case True
    let ?buf = "take (l - (2 ^ k - w)) (drop (2 ^ k - w) src)
               @ drop (l - (2 ^ k - w)) (take w (buffer_m rb) @ take (2 ^ k - w) src @ drop (w + (2 ^ k - w)) (buffer_m rb))"
    have cp: "(case memcpy (buffer_m rb) w src 0 (2 ^ k - w) of
            None \<Rightarrow> None
          | Some b1 \<Rightarrow> memcpy b1 0 src (2 ^ k - w) (l - (2 ^ k - w))) = Some ?buf"
      using src by (intro write_copy_wrap[OF N wN True lN]) (simp add: l_def)
    have res: "write_rb ndebug rb (Some src) len =
       Inr (Success, rb\<lparr>buffer_m := ?buf,
                         write_index_m := (write_index_m rb AND index_mask rb) + len,
                         buffered_bytes_m := buffered_bytes_m rb + len\<rparr>)"
      using l0 noov nneg True cp
      unfolding write_rb_def w_def l_def
      by (simp add: bb Let_def wrapiff[unfolded w_def l_def] left[unfolded w_def])
    have rot: "rotate r ?buf = take b (rotate r (buffer_m rb)) @ take l src @ drop (b + l) (rotate r (buffer_m rb))"
      using src by (intro put_wrap[OF N rN bl wrb True]) (simp add: l_def)
    have "length (rotate r ?buf) = length (buffer_m rb)"
      unfolding rot using bl src by (simp add: N l_def)
    then have len: "length ?buf = length (buffer_m rb)" by (simp only: length_rotate)
    show thesis
      by (rule that[OF res len]) (use rot in \<open>simp only: r_def b_def l_def\<close>)
  qed
qed


lemma write_rb_ok:
  assumes inv: "rb_inv rb" and l0: "len \<noteq> 0"
    and fit: "unat (buffered_bytes_m rb) + unat len \<le> length (buffer_m rb)"
    and src: "unat len \<le> length src"
  obtains rb' where
    "write_rb ndebug rb (Some src) len = Inr (Success, rb')"
    "rb_inv rb'"
    "contents rb' = contents rb @ take (unat len) src"
    "unat (buffered_bytes_m rb') = unat (buffered_bytes_m rb) + unat len"
    "length (buffer_m rb') = length (buffer_m rb)"
proof -
  from write_rb_success[OF inv l0 fit src, of ndebug] obtain buf where
    res: "write_rb ndebug rb (Some src) len =
       Inr (Success, rb\<lparr>buffer_m := buf,
                         write_index_m := (write_index_m rb AND index_mask rb) + len,
                         buffered_bytes_m := buffered_bytes_m rb + len\<rparr>)"
    and len: "length buf = length (buffer_m rb)"
    and rot: "rotate (unat (read_index_m rb AND index_mask rb)) buf =
       take (unat (buffered_bytes_m rb)) (rotate (unat (read_index_m rb AND index_mask rb)) (buffer_m rb))
       @ take (unat len) src
       @ drop (unat (buffered_bytes_m rb) + unat len)
           (rotate (unat (read_index_m rb AND index_mask rb)) (buffer_m rb))"
    by blast
  let ?rb = "rb\<lparr>buffer_m := buf,
                  write_index_m := (write_index_m rb AND index_mask rb) + len,
                  buffered_bytes_m := buffered_bytes_m rb + len\<rparr>"
  from inv obtain k where k: "k < 31" and N: "length (buffer_m rb) = 2 ^ k"
    and m: "index_mask rb = mask k"
    and wr: "write_index_m rb AND mask k = (read_index_m rb + buffered_bytes_m rb) AND mask k"
    by (rule rb_inv_pow)
  have N31: "(2::nat) ^ k < 2 ^ 31" by (rule pow2_lt_31[OF k])
  have sum: "unat (buffered_bytes_m rb + len) = unat (buffered_bytes_m rb) + unat len"
    using fit N31 unat_add_lem[of "buffered_bytes_m rb" len] by (simp add: N)
  have k32: "k \<le> 32" using k by simp
  have widx: "((write_index_m rb AND mask k) + len) AND mask k
      = (read_index_m rb + (buffered_bytes_m rb + len)) AND mask k"
    by (simp only: wr mask_add_left[OF k32] add.assoc)
  have mk: "index_mask rb = of_nat (length (buffer_m rb)) - 1"
    using inv unfolding rb_inv_def by blast
  have inv': "rb_inv ?rb"
    unfolding rb_inv_def using k N fit sum widx mk
    by (auto simp add: len m)
  have bl: "unat (buffered_bytes_m rb) \<le> length (buffer_m rb)" using fit by simp
  have cont: "contents ?rb = contents rb @ take (unat len) src"
    unfolding contents_def using rot sum src bl by simp
  show thesis
    by (rule that[OF res inv' cont]) (simp_all add: sum len)
qed

lemma write_rb_overflow:
  assumes inv: "rb_inv rb" and l0: "len \<noteq> 0"
    and big: "length (buffer_m rb) < unat (buffered_bytes_m rb) + unat len"
    and nowrap: "unat (buffered_bytes_m rb) + unat len < 2 ^ 32"
  shows "write_rb ndebug rb (Some src) len = Inr (ErrBufferOverflow, rb)"
proof -
  from inv obtain k where cap: "unat (capacity rb) = 2 ^ k" and N: "length (buffer_m rb) = 2 ^ k"
    by (rule rb_inv_pow)
  have sum: "unat (buffered_bytes_m rb + len) = unat (buffered_bytes_m rb) + unat len"
    using nowrap unat_add_lem[of "buffered_bytes_m rb" len] by simp
  have "capacity rb < buffered_bytes_m rb + len"
    using big by (simp add: word_less_nat_alt cap sum N)
  then show ?thesis
    using l0 by (simp add: write_rb_def buffered_bytes_ok[OF inv])
qed

lemma write_rb_invalid:
  "data = None \<or> len = 0 \<Longrightarrow> write_rb ndebug rb data len = Inr (ErrInvalidParameter, rb)"
  by (auto simp add: write_rb_def split: option.splits)


lemma read_copy_nowrap:
  assumes "r + n \<le> length buf" "n \<le> length dst"
  shows "memcpy dst 0 buf r n = Some (take n (drop r buf) @ drop n dst)"
  using assms by (simp add: memcpy_def)

lemma read_copy_wrap:
  assumes N: "length buf = N" and r: "r < N" and wrap: "N < r + n" and n: "n \<le> N"
    and dst: "n \<le> length dst"
  shows "(case memcpy dst 0 buf r (N - r) of
            None \<Rightarrow> None
          | Some d1 \<Rightarrow> memcpy d1 (N - r) buf 0 (n - (N - r)))
       = Some (drop r buf @ take (n - (N - r)) buf @ drop n dst)"
proof -
  have 1: "memcpy dst 0 buf r (N - r) = Some (drop r buf @ drop (N - r) dst)"
    using N r wrap dst by (simp add: memcpy_def)
  have len1: "length (drop r buf @ drop (N - r) dst) = length dst"
    using N r wrap dst by simp
  have lenA: "length (drop r buf) = N - r" using N by simp
  have 2: "memcpy (drop r buf @ drop (N - r) dst) (N - r) buf 0 (n - (N - r))
      = Some (drop r buf @ take (n - (N - r)) buf @ drop n dst)"
    unfolding memcpy_def len1 using r wrap n dst N by (simp add: lenA)
  show ?thesis unfolding 1 option.case 2 ..
qed

lemma take_rotate_nowrap:
  assumes "r < length buf" "r + n \<le> length buf"
  shows "take n (rotate r buf) = take n (drop r buf)"
  using assms by (simp add: rotate_drop_take)

lemma take_rotate_wrap:
  assumes N: "length buf = N" and r: "r < N" and wrap: "N < r + n" and n: "n \<le> N"
  shows "take n (rotate r buf) = drop r buf @ take (n - (N - r)) buf"
proof -
  have "n - (N - r) \<le> r" using n r by simp
  then have "take (n - (N - r)) (take r buf) = take (n - (N - r)) buf"
    by (simp add: min_def)
  then show ?thesis
    using N r wrap by (simp add: rotate_drop_take)
qed

lemma rotate_consume:
  assumes N: "length buf = N" and n: "n \<le> b" and b: "b \<le> N" and N0: "0 < N"
  shows "take (b - n) (rotate ((r + n) mod N) buf) = drop n (take b (rotate r buf))"
proof -
  have "rotate ((r + n) mod N) buf = rotate (r + n) buf"
    unfolding N[symmetric] by (rule rotate_conv_mod[symmetric])
  also have "\<dots> = rotate n (rotate r buf)"
    by (simp add: rotate_rotate add.commute)
  finally have e: "rotate ((r + n) mod N) buf = rotate n (rotate r buf)" .
  show ?thesis
  proof (cases "n < N")
    case True
    then have "rotate n (rotate r buf) = drop n (rotate r buf) @ take n (rotate r buf)"
      using N by (simp add: rotate_drop_take)
    then show ?thesis unfolding e using n b N True by (simp add: drop_take)
  next
    case False
    then have "b - n = 0" using n b by simp
    moreover have "drop n (take b (rotate r buf)) = []" using False n b by simp
    ultimately show ?thesis by simp
  qed
qed


lemma consume_ok:
  assumes inv: "rb_inv rb" and n: "n \<le> buffered_bytes_m rb"
    and idx: "ridx AND index_mask rb = ((read_index_m rb AND index_mask rb) + n) AND index_mask rb"
  shows "rb_inv (rb\<lparr>read_index_m := ridx, buffered_bytes_m := buffered_bytes_m rb - n\<rparr>)"
    and "contents (rb\<lparr>read_index_m := ridx, buffered_bytes_m := buffered_bytes_m rb - n\<rparr>)
         = drop (unat n) (contents rb)"
    and "\<not> buffered_bytes_m rb - n <s 0"
proof -
  from inv obtain k where k: "k < 31" and N: "length (buffer_m rb) = 2 ^ k"
    and m: "index_mask rb = mask k"
    and bN: "unat (buffered_bytes_m rb) \<le> 2 ^ k"
    and wr: "write_index_m rb AND mask k = (read_index_m rb + buffered_bytes_m rb) AND mask k"
    by (rule rb_inv_pow)
  let ?rb = "rb\<lparr>read_index_m := ridx, buffered_bytes_m := buffered_bytes_m rb - n\<rparr>"
  have N31: "(2::nat) ^ k < 2 ^ 31" by (rule pow2_lt_31[OF k])
  have k32: "k \<le> 32" using k by simp
  have sub: "unat (buffered_bytes_m rb - n) = unat (buffered_bytes_m rb) - unat n"
    using n by (rule unat_sub)
  have nb: "unat n \<le> unat (buffered_bytes_m rb)" using n by (simp add: word_le_nat_alt)
  have idx': "ridx AND mask k = ((read_index_m rb AND mask k) + n) AND mask k"
    using idx by (simp only: m)
  have "(ridx + (buffered_bytes_m rb - n)) AND mask k
      = ((ridx AND mask k) + (buffered_bytes_m rb - n)) AND mask k"
    by (rule mask_add_left[OF k32, symmetric])
  also have "\<dots> = (((read_index_m rb AND mask k) + n) + (buffered_bytes_m rb - n)) AND mask k"
    unfolding idx' by (rule mask_add_left[OF k32])
  also have "\<dots> = ((read_index_m rb AND mask k) + buffered_bytes_m rb) AND mask k"
    by simp
  also have "\<dots> = (read_index_m rb + buffered_bytes_m rb) AND mask k"
    by (rule mask_add_left[OF k32])
  finally have widx: "write_index_m rb AND mask k = (ridx + (buffered_bytes_m rb - n)) AND mask k"
    unfolding wr by (rule sym)
  have mk: "index_mask rb = of_nat (length (buffer_m rb)) - 1"
    using inv unfolding rb_inv_def by blast
  show "rb_inv ?rb"
    unfolding rb_inv_def using k N bN sub widx mk
    by (auto simp add: m)
  have r': "unat (ridx AND mask k) = (unat (read_index_m rb AND mask k) + unat n) mod 2 ^ k"
    unfolding idx' using unat_add_mod_pow[OF k32, of "read_index_m rb AND mask k" n]
    by simp
  have "contents ?rb = take (unat (buffered_bytes_m rb) - unat n)
           (rotate ((unat (read_index_m rb AND mask k) + unat n) mod 2 ^ k) (buffer_m rb))"
    by (simp add: contents_def m r' sub)
  also have "\<dots> = drop (unat n) (take (unat (buffered_bytes_m rb))
           (rotate (unat (read_index_m rb AND mask k)) (buffer_m rb)))"
    by (rule rotate_consume[OF N nb bN]) simp
  finally show "contents ?rb = drop (unat n) (contents rb)"
    by (simp add: contents_def m)
  show "\<not> buffered_bytes_m rb - n <s 0"
    by (rule not_sless_zero) (use sub bN N31 in linarith)
qed


lemma read_window:
  assumes inv: "rb_inv rb" and n: "n \<le> buffered_bytes_m rb"
  obtains N r where "length (buffer_m rb) = N" "r = unat (read_index_m rb AND index_mask rb)"
    "r < N" "unat n \<le> N"
    "capacity rb < (read_index_m rb AND index_mask rb) + n \<longleftrightarrow> N < r + unat n"
    "unat (capacity rb - (read_index_m rb AND index_mask rb)) = N - r"
    "take (unat n) (contents rb) = take (unat n) (rotate r (buffer_m rb))"
proof -
  from inv obtain k where k: "k < 31" and N: "length (buffer_m rb) = 2 ^ k"
    and m: "index_mask rb = mask k" and cap: "unat (capacity rb) = 2 ^ k"
    and bN: "unat (buffered_bytes_m rb) \<le> 2 ^ k"
    by (rule rb_inv_pow)
  define r where "r = unat (read_index_m rb AND index_mask rb)"
  have N31: "(2::nat) ^ k < 2 ^ 31" by (rule pow2_lt_31[OF k])
  have rN: "r < 2 ^ k" unfolding r_def m unat_and_mask by simp
  have nb: "unat n \<le> unat (buffered_bytes_m rb)" using n by (simp add: word_le_nat_alt)
  have nN: "unat n \<le> 2 ^ k" using nb bN by simp
  have sum: "unat ((read_index_m rb AND index_mask rb) + n) = r + unat n"
    using rN nN N31 unat_add_lem[of "read_index_m rb AND index_mask rb" n]
    by (simp add: r_def)
  have wrapiff: "capacity rb < (read_index_m rb AND index_mask rb) + n \<longleftrightarrow> 2 ^ k < r + unat n"
    by (simp add: word_less_nat_alt cap sum)
  have left: "unat (capacity rb - (read_index_m rb AND index_mask rb)) = 2 ^ k - r"
  proof -
    have "(read_index_m rb AND index_mask rb) \<le> capacity rb"
      using rN by (simp add: word_le_nat_alt cap r_def)
    then show ?thesis by (simp add: unat_sub cap r_def)
  qed
  have tk: "take (unat n) (contents rb) = take (unat n) (rotate r (buffer_m rb))"
    using nb by (simp add: contents_def r_def min_def)
  show thesis by (rule that[OF N r_def rN nN wrapiff left tk])
qed

lemma read_ok:
  assumes inv: "rb_inv rb"
    and room: "unat (min len (buffered_bytes_m rb)) \<le> length dst"
  obtains rb' where
    "read ndebug rb (Some dst) len =
       Inr (min len (buffered_bytes_m rb),
            Some (take (unat (min len (buffered_bytes_m rb))) (contents rb)
                  @ drop (unat (min len (buffered_bytes_m rb))) dst),
            rb')"
    "rb_inv rb'"
    "contents rb' = drop (unat (min len (buffered_bytes_m rb))) (contents rb)"
    "buffered_bytes_m rb' = buffered_bytes_m rb - min len (buffered_bytes_m rb)"
    "buffer_m rb' = buffer_m rb"
proof (cases "len = 0 \<or> buffered_bytes_m rb = 0")
  case True
  then have z: "min len (buffered_bytes_m rb) = 0" by (auto simp add: min_def)
  have "read ndebug rb (Some dst) len = Inr (0, Some dst, rb)"
    using True by (auto simp add: read_def)
  then show thesis using inv by (intro that[of rb]) (simp_all add: z)
next
  case False
  define n where "n = min len (buffered_bytes_m rb)"
  have n: "n \<le> buffered_bytes_m rb" by (simp add: n_def)
  from read_window[OF inv n] obtain N r where N: "length (buffer_m rb) = N"
    and r: "r = unat (read_index_m rb AND index_mask rb)" and rN: "r < N" and nN: "unat n \<le> N"
    and wrapiff: "capacity rb < (read_index_m rb AND index_mask rb) + n \<longleftrightarrow> N < r + unat n"
    and left: "unat (capacity rb - (read_index_m rb AND index_mask rb)) = N - r"
    and tk: "take (unat n) (contents rb) = take (unat n) (rotate r (buffer_m rb))"
    by blast
  let ?rb = "rb\<lparr>read_index_m := (read_index_m rb AND index_mask rb) + n,
                  buffered_bytes_m := buffered_bytes_m rb - n\<rparr>"
  have c: "rb_inv ?rb" "contents ?rb = drop (unat n) (contents rb)"
    "\<not> buffered_bytes_m rb - n <s 0"
    by (rule consume_ok[OF inv n refl])+
  have room': "unat n \<le> length dst" using room by (simp add: n_def)
  have bb: "buffered_bytes ndebug rb = Inr (buffered_bytes_m rb)"
    by (rule buffered_bytes_ok[OF inv])
  have copied: "(if capacity rb < (read_index_m rb AND index_mask rb) + n
                 then (case memcpy dst 0 (buffer_m rb) r (N - r) of
                         None \<Rightarrow> None
                       | Some d1 \<Rightarrow> memcpy d1 (N - r) (buffer_m rb) 0 (unat n - (N - r)))
                 else memcpy dst 0 (buffer_m rb) r (unat n))
        = Some (take (unat n) (contents rb) @ drop (unat n) dst)"
  proof (cases "N < r + unat n")
    case True
    have "take (unat n) (rotate r (buffer_m rb))
        = drop r (buffer_m rb) @ take (unat n - (N - r)) (buffer_m rb)"
      by (rule take_rotate_wrap[OF N rN True nN])
    then show ?thesis
      using True read_copy_wrap[OF N rN True nN room'] by (simp add: wrapiff tk)
  next
    case False
    have "take (unat n) (rotate r (buffer_m rb)) = take (unat n) (drop r (buffer_m rb))"
      using False rN by (intro take_rotate_nowrap) (simp_all add: N)
    then show ?thesis
      using False read_copy_nowrap[of r "unat n" "buffer_m rb" dst] room'
      by (simp add: wrapiff tk N)
  qed
  have res: "read ndebug rb (Some dst) len =
       Inr (n, Some (take (unat n) (contents rb) @ drop (unat n) dst), ?rb)"
    using False copied c(3)
    unfolding read_def r n_def
    by (cases "capacity rb < (read_index_m rb AND index_mask rb) + min len (buffered_bytes_m rb)")
       (simp_all add: bb Let_def left[unfolded r n_def])
  show thesis
    by (rule that[OF res[unfolded n_def] c(1)[unfolded n_def] c(2)[unfolded n_def]]) simp_all
qed


lemma read_cb_ok:
  assumes inv: "rb_inv rb"
  shows "read_cb ndebug rb len recv_cb u =
     (if len = 0 \<or> buffered_bytes_m rb = 0 then Inr (0, u, rb)
      else
        (case recv_cb u (take (unat (min len (buffered_bytes_m rb))) (contents rb))
                (min len (buffered_bytes_m rb)) of
           (read_ok, u') \<Rightarrow>
             if read_ok
             then Inr (min len (buffered_bytes_m rb), u',
                       rb\<lparr>read_index_m := (read_index_m rb AND index_mask rb)
                                             + min len (buffered_bytes_m rb),
                          buffered_bytes_m := buffered_bytes_m rb - min len (buffered_bytes_m rb)\<rparr>)
             else Inr (0, u', rb)))"
proof (cases "len = 0 \<or> buffered_bytes_m rb = 0")
  case True
  then show ?thesis by (auto simp add: read_cb_def)
next
  case False
  define n where "n = min len (buffered_bytes_m rb)"
  have n: "n \<le> buffered_bytes_m rb" by (simp add: n_def)
  from read_window[OF inv n] obtain N r where N: "length (buffer_m rb) = N"
    and r: "r = unat (read_index_m rb AND index_mask rb)" and rN: "r < N" and nN: "unat n \<le> N"
    and wrapiff: "capacity rb < (read_index_m rb AND index_mask rb) + n \<longleftrightarrow> N < r + unat n"
    and left: "unat (capacity rb - (read_index_m rb AND index_mask rb)) = N - r"
    and tk: "take (unat n) (contents rb) = take (unat n) (rotate r (buffer_m rb))"
    by blast
  have nneg: "\<not> buffered_bytes_m rb - n <s 0"
    by (rule consume_ok(3)[OF inv n refl])
  have bb: "buffered_bytes ndebug rb = Inr (buffered_bytes_m rb)"
    by (rule buffered_bytes_ok[OF inv])
  have shown: "(if capacity rb < (read_index_m rb AND index_mask rb) + n
                 then (case memcpy (replicate (unat n) 0) 0 (buffer_m rb) r (N - r) of
                         None \<Rightarrow> None
                       | Some t1 \<Rightarrow> memcpy t1 (N - r) (buffer_m rb) 0 (unat n - (N - r)))
                 else if r + unat n \<le> length (buffer_m rb)
                      then Some (take (unat n) (drop r (buffer_m rb))) else None)
        = Some (take (unat n) (contents rb))"
  proof (cases "N < r + unat n")
    case True
    have "take (unat n) (rotate r (buffer_m rb))
        = drop r (buffer_m rb) @ take (unat n - (N - r)) (buffer_m rb)"
      by (rule take_rotate_wrap[OF N rN True nN])
    then show ?thesis
      using True read_copy_wrap[OF N rN True nN, of "replicate (unat n) 0"]
      by (simp add: wrapiff tk)
  next
    case False
    have "take (unat n) (rotate r (buffer_m rb)) = take (unat n) (drop r (buffer_m rb))"
      using False rN by (intro take_rotate_nowrap) (simp_all add: N)
    then show ?thesis
      using False by (simp add: wrapiff tk N)
  qed
  show ?thesis
    using False shown nneg
    unfolding read_cb_def r n_def
    by (cases "capacity rb < (read_index_m rb AND index_mask rb) + min len (buffered_bytes_m rb)")
       (simp_all add: bb Let_def left[unfolded r n_def] split: prod.splits)
qed

lemma drain_ok:
  assumes inv: "rb_inv rb"
  obtains rb' where
    "drain ndebug rb len = Inr rb'"
    "rb_inv rb'"
    "contents rb' = drop (unat (min len (buffered_bytes_m rb))) (contents rb)"
    "buffered_bytes_m rb' = buffered_bytes_m rb - min len (buffered_bytes_m rb)"
    "buffer_m rb' = buffer_m rb"
proof -
  define n where "n = min len (buffered_bytes_m rb)"
  have n: "n \<le> buffered_bytes_m rb" by (simp add: n_def)
  let ?rb = "rb\<lparr>read_index_m := ((read_index_m rb AND index_mask rb) + n) AND index_mask rb,
                  buffered_bytes_m := buffered_bytes_m rb - n\<rparr>"
  have idx: "(((read_index_m rb AND index_mask rb) + n) AND index_mask rb) AND index_mask rb
      = ((read_index_m rb AND index_mask rb) + n) AND index_mask rb"
    by simp
  have c: "rb_inv ?rb" "contents ?rb = drop (unat n) (contents rb)"
    "\<not> buffered_bytes_m rb - n <s 0"
    by (rule consume_ok[OF inv n idx])+
  have bb: "buffered_bytes ndebug rb = Inr (buffered_bytes_m rb)"
    by (rule buffered_bytes_ok[OF inv])
  have res: "drain ndebug rb len = Inr ?rb"
    using c(3) unfolding drain_def n_def by (simp add: bb Let_def)
  show thesis
    by (rule that[OF res[unfolded n_def] c(1)[unfolded n_def] c(2)[unfolded n_def]]) simp_all
qed

lemma unat_min: "unat (min a b) = min (unat a) (unat b)" for a b :: u32
  by (simp add: min_def word_le_nat_alt)


lemma rb_invI:
  assumes "k < 31" "length (buffer_m rb) = 2 ^ k" "index_mask rb = 2 ^ k - 1"
    "unat (buffered_bytes_m rb) \<le> 2 ^ k"
    "write_index_m rb AND index_mask rb
       = (read_index_m rb + buffered_bytes_m rb) AND index_mask rb"
  shows "rb_inv rb"
  unfolding rb_inv_def using assms by auto

lemma length_contents:
  assumes "rb_inv rb" shows "length (contents rb) = unat (buffered_bytes_m rb)"
  using assms by (simp add: contents_def rb_inv_def)

lemma apply_op_ok:
  assumes inv: "rb_inv rb" and fits: "op_fits rb x"
  obtains rb' written' consumed' where
    "apply_op ndebug (rb, written, consumed) x = Inr (rb', written', consumed')"
    "rb_inv rb'"
    "length (buffer_m rb') = length (buffer_m rb)"
    "unat (buffered_bytes_m rb') + consumed' + written
       = unat (buffered_bytes_m rb) + consumed + written'"
proof (cases x)
  case (Write data len)
  show thesis
  proof (cases "data = None \<or> len = 0")
    case True
    then have "write_rb ndebug rb data len = Inr (ErrInvalidParameter, rb)"
      by (rule write_rb_invalid)
    then show thesis using Write inv by (intro that[of rb written consumed]) simp_all
  next
    case False
    then obtain src where d: "data = Some src" and l0: "len \<noteq> 0" by auto
    have bN: "unat (buffered_bytes_m rb) \<le> length (buffer_m rb)"
      using inv unfolding rb_inv_def by blast
    have fit: "unat (buffered_bytes_m rb) + unat len \<le> length (buffer_m rb)"
      and src: "unat len \<le> length src"
      using fits bN by (auto simp add: Write d)
    from write_rb_ok[OF inv l0 fit src, of ndebug] obtain rb' where
      w: "write_rb ndebug rb (Some src) len = Inr (Success, rb')" and i: "rb_inv rb'"
      and b: "unat (buffered_bytes_m rb') = unat (buffered_bytes_m rb) + unat len"
      and n: "length (buffer_m rb') = length (buffer_m rb)"
      by blast
    show thesis
      using w i b n by (intro that[of rb' "written + unat len" consumed]) (simp_all add: Write d)
  qed
next
  case (Read data len)
  show thesis
  proof (cases data)
    case None
    then have "read ndebug rb data len = Inr (0, data, rb)" by (simp add: read_def)
    then show thesis using Read inv by (intro that[of rb written consumed]) simp_all
  next
    case (Some dst)
    have "unat (min len (buffered_bytes_m rb)) \<le> unat len" by (simp add: unat_min)
    then have room: "unat (min len (buffered_bytes_m rb)) \<le> length dst"
      using fits by (simp add: Read Some)
    from read_ok[OF inv room, of ndebug] obtain rb' where
      r: "read ndebug rb (Some dst) len =
           Inr (min len (buffered_bytes_m rb),
                Some (take (unat (min len (buffered_bytes_m rb))) (contents rb)
                      @ drop (unat (min len (buffered_bytes_m rb))) dst), rb')"
      and i: "rb_inv rb'"
      and b: "buffered_bytes_m rb' = buffered_bytes_m rb - min len (buffered_bytes_m rb)"
      and n: "buffer_m rb' = buffer_m rb"
      by blast
    have sub: "unat (buffered_bytes_m rb - min len (buffered_bytes_m rb))
        = unat (buffered_bytes_m rb) - unat (min len (buffered_bytes_m rb))"
      by (rule unat_sub) simp
    have le: "unat (min len (buffered_bytes_m rb)) \<le> unat (buffered_bytes_m rb)"
      by (simp add: unat_min)
    show thesis
      using r i n le
      by (intro that[of rb' written "consumed + unat (min len (buffered_bytes_m rb))"])
         (simp_all add: Read Some b sub)
  qed
next
  case (Drain len)
  from drain_ok[OF inv, of ndebug len] obtain rb' where
    d: "drain ndebug rb len = Inr rb'" and i: "rb_inv rb'"
    and b: "buffered_bytes_m rb' = buffered_bytes_m rb - min len (buffered_bytes_m rb)"
    and n: "buffer_m rb' = buffer_m rb"
    by blast
  have sub: "unat (buffered_bytes_m rb - min len (buffered_bytes_m rb))
      = unat (buffered_bytes_m rb) - unat (min len (buffered_bytes_m rb))"
    by (rule unat_sub) simp
  have le: "unat (min len (buffered_bytes_m rb)) \<le> unat (buffered_bytes_m rb)"
    by (simp add: unat_min)
  show thesis
    using d i n le
    by (intro that[of rb' written "consumed + unat (min len (buffered_bytes_m rb))"])
       (simp_all add: Drain b sub)
qed

lemma run_ops_ok:
  assumes "rb_inv rb" "ops_fit ndebug (rb, written, consumed) ops"
  shows "\<exists>rb' written' consumed'.
           run_ops ndebug (rb, written, consumed) ops = Inr (rb', written', consumed')
           \<and> rb_inv rb'
           \<and> length (buffer_m rb') = length (buffer_m rb)
           \<and> unat (buffered_bytes_m rb') + consumed' + written
               = unat (buffered_bytes_m rb) + consumed + written'"
  using assms
proof (induction ops arbitrary: rb written consumed)
  case Nil
  then show ?case by simp
next
  case (Cons x xs)
  from Cons.prems have fx: "op_fits rb x" by simp
  from apply_op_ok[OF Cons.prems(1) fx, of ndebug written consumed]
  obtain rb1 w1 c1 where
    a: "apply_op ndebug (rb, written, consumed) x = Inr (rb1, w1, c1)"
    and i: "rb_inv rb1" and n: "length (buffer_m rb1) = length (buffer_m rb)"
    and e: "unat (buffered_bytes_m rb1) + c1 + written
              = unat (buffered_bytes_m rb) + consumed + w1"
    by blast
  from Cons.prems(2) a have "ops_fit ndebug (rb1, w1, c1) xs" by simp
  from Cons.IH[OF i this] obtain rb' w' c' where
    r: "run_ops ndebug (rb1, w1, c1) xs = Inr (rb', w', c')"
    and i': "rb_inv rb'" and n': "length (buffer_m rb') = length (buffer_m rb1)"
    and e': "unat (buffered_bytes_m rb') + c' + w1 = unat (buffered_bytes_m rb1) + c1 + w'"
    by blast
  show ?case
    using a r i' n n' e e' by (intro exI[of _ rb'] exI[of _ w'] exI[of _ c']) simp
qed

lemma ops_fit_take:
  "ops_fit ndebug s ops \<Longrightarrow> ops_fit ndebug s (take n ops)"
proof (induction ops arbitrary: s n)
  case Nil
  then show ?case by simp
next
  case (Cons x xs)
  show ?case
  proof (cases n)
    case 0
    then show ?thesis by simp
  next
    case (Suc m)
    then show ?thesis using Cons.prems Cons.IH by (auto split: sum.splits)
  qed
qed

lemma write_all_ok:
  assumes "rb_inv rb"
    and "unat (buffered_bytes_m rb) + length (concat chunks) \<le> length (buffer_m rb)"
  shows "\<exists>rb'. write_all ndebug rb chunks
                 = Inr (map (\<lambda>c. if c = [] then ErrInvalidParameter else Success) chunks, rb')
           \<and> rb_inv rb'
           \<and> contents rb' = contents rb @ concat chunks
           \<and> length (buffer_m rb') = length (buffer_m rb)"
  using assms
proof (induction chunks arbitrary: rb)
  case Nil
  then show ?case by simp
next
  case (Cons c cs)
  from Cons.prems(1) obtain k where k: "k < 31" and N: "length (buffer_m rb) = 2 ^ k"
    by (rule rb_inv_pow)
  have "length c \<le> 2 ^ k" using Cons.prems(2) N by simp
  then have "length c < 2 ^ 32" using pow2_lt_31[OF k] by simp
  then have ul: "unat (of_nat (length c) :: u32) = length c" by (rule unat_of_nat_u32)
  show ?case
  proof (cases "c = []")
    case True
    then have w: "write_rb ndebug rb (Some c) (of_nat (length c)) = Inr (ErrInvalidParameter, rb)"
      by (intro write_rb_invalid) simp
    from Cons.IH[OF Cons.prems(1)] Cons.prems(2) True obtain rb' where
      "write_all ndebug rb cs
         = Inr (map (\<lambda>c. if c = [] then ErrInvalidParameter else Success) cs, rb')"
      "rb_inv rb'" "contents rb' = contents rb @ concat cs"
      "length (buffer_m rb') = length (buffer_m rb)"
      by auto
    then show ?thesis using w True by (intro exI[of _ rb']) simp
  next
    case False
    then have l0: "(of_nat (length c) :: u32) \<noteq> 0"
      using ul by (metis length_0_conv unat_0)
    have fit: "unat (buffered_bytes_m rb) + unat (of_nat (length c) :: u32) \<le> length (buffer_m rb)"
      using Cons.prems(2) by (simp add: ul)
    have src: "unat (of_nat (length c) :: u32) \<le> length c" by (simp add: ul)
    from write_rb_ok[OF Cons.prems(1) l0 fit src, of ndebug] obtain rb1 where
      w: "write_rb ndebug rb (Some c) (of_nat (length c)) = Inr (Success, rb1)"
      and i: "rb_inv rb1" and ct: "contents rb1 = contents rb @ take (unat (of_nat (length c) :: u32)) c"
      and b: "unat (buffered_bytes_m rb1) = unat (buffered_bytes_m rb) + unat (of_nat (length c) :: u32)"
      and n: "length (buffer_m rb1) = length (buffer_m rb)"
      by blast
    have "unat (buffered_bytes_m rb1) + length (concat cs) \<le> length (buffer_m rb1)"
      using Cons.prems(2) by (simp add: b n ul)
    from Cons.IH[OF i this] obtain rb' where
      "write_all ndebug rb1 cs
         = Inr (map (\<lambda>c. if c = [] then ErrInvalidParameter else Success) cs, rb')"
      "rb_inv rb'" "contents rb' = contents rb1 @ concat cs"
      "length (buffer_m rb') = length (buffer_m rb1)"
      by auto
    then show ?thesis using w False ct n by (intro exI[of _ rb']) (simp add: ul)
  qed
qed

lemma read_all_ok:
  assumes "rb_inv rb" and "sum_list lens \<le> unat (buffered_bytes_m rb)"
  shows "\<exists>rb'. read_all ndebug rb lens = Inr (take (sum_list lens) (contents rb), rb')
           \<and> rb_inv rb'
           \<and> contents rb' = drop (sum_list lens) (contents rb)"
  using assms
proof (induction lens arbitrary: rb)
  case Nil
  then show ?case by simp
next
  case (Cons l ls)
  from Cons.prems(1) obtain k where k: "k < 31"
    and bN: "unat (buffered_bytes_m rb) \<le> 2 ^ k"
    by (rule rb_inv_pow)
  have lb: "l \<le> unat (buffered_bytes_m rb)" using Cons.prems(2) by simp
  then have "l < 2 ^ 32" using bN pow2_lt_31[OF k] by simp
  then have ul: "unat (of_nat l :: u32) = l" by (rule unat_of_nat_u32)
  have mn: "min (of_nat l) (buffered_bytes_m rb) = (of_nat l :: u32)"
    using lb by (simp add: min_def word_le_nat_alt ul)
  have room: "unat (min (of_nat l) (buffered_bytes_m rb)) \<le> length (replicate l (0 :: u8))"
    by (simp add: mn ul)
  from read_ok[OF Cons.prems(1) room, of ndebug] obtain rb1 where
    r: "read ndebug rb (Some (replicate l 0)) (of_nat l) =
          Inr (of_nat l, Some (take l (contents rb) @ drop l (replicate l 0)), rb1)"
    and i: "rb_inv rb1" and ct: "contents rb1 = drop l (contents rb)"
    and b: "buffered_bytes_m rb1 = buffered_bytes_m rb - of_nat l"
    unfolding mn ul by blast
  have "unat (buffered_bytes_m rb - of_nat l) = unat (buffered_bytes_m rb) - unat (of_nat l :: u32)"
    by (rule unat_sub) (use lb in \<open>simp add: word_le_nat_alt ul\<close>)
  then have "sum_list ls \<le> unat (buffered_bytes_m rb1)"
    using Cons.prems(2) by (simp add: b ul)
  from Cons.IH[OF i this] obtain rb' where
    ra: "read_all ndebug rb1 ls = Inr (take (sum_list ls) (contents rb1), rb')"
    and i': "rb_inv rb'" and ct': "contents rb' = drop (sum_list ls) (contents rb1)"
    by blast
  have len: "length (contents rb) = unat (buffered_bytes_m rb)"
    by (rule length_contents[OF Cons.prems(1)])
  have "take l (take l (contents rb)) @ take (sum_list ls) (drop l (contents rb))
      = take (l + sum_list ls) (contents rb)"
    by (simp add: take_add)
  then show ?case
    using r ra i' ct ct' lb len
    by (intro exI[of _ rb']) (simp add: ul add.commute)
qed

lemma write_rb_oob:
  assumes inv: "rb_inv rb" and l0: "len \<noteq> 0"
    and pass: "\<not> capacity rb < buffered_bytes_m rb + len"
    and big: "2 * length (buffer_m rb) < unat len \<or> length src < unat len"
  shows "write_rb ndebug rb (Some src) len = Inl OutOfBounds"
proof -
  from inv obtain k where k: "k < 31" and N: "length (buffer_m rb) = 2 ^ k"
    and m: "index_mask rb = mask k" and cap: "unat (capacity rb) = 2 ^ k"
    by (rule rb_inv_pow)
  define l where "l = unat len"
  define w where "w = unat (write_index_m rb AND index_mask rb)"
  have wN: "w < 2 ^ k" unfolding w_def m unat_and_mask by simp
  have l32: "l < 2 ^ 32" unfolding l_def using unsigned_less[of len, where ?'a = nat] by simp
  have left: "unat (capacity rb - (write_index_m rb AND index_mask rb)) = 2 ^ k - w"
  proof -
    have "(write_index_m rb AND index_mask rb) \<le> capacity rb"
      using wN by (simp add: word_le_nat_alt cap w_def)
    then show ?thesis by (simp add: unat_sub cap w_def)
  qed
  have sum: "unat ((write_index_m rb AND index_mask rb) + len)
      = (if w + l < 2 ^ 32 then w + l else w + l - 2 ^ 32)"
    using unat_plus_if'[of "write_index_m rb AND index_mask rb" len] by (simp add: w_def l_def)
  have copied: "(if capacity rb < (write_index_m rb AND index_mask rb) + len
        then (case memcpy (buffer_m rb) w src 0 (2 ^ k - w) of
                None \<Rightarrow> None
              | Some b1 \<Rightarrow> memcpy b1 0 src (2 ^ k - w) (l - (2 ^ k - w)))
        else memcpy (buffer_m rb) w src 0 l) = None"
  proof (cases "capacity rb < (write_index_m rb AND index_mask rb) + len")
    case True
    then have gt: "2 ^ k < (if w + l < 2 ^ 32 then w + l else w + l - 2 ^ 32)"
      by (simp add: word_less_nat_alt cap sum)
    have nowrap: "w + l < 2 ^ 32"
    proof (rule ccontr)
      assume "\<not> w + l < 2 ^ 32"
      with gt have "2 ^ k < w + l - 2 ^ 32" by simp
      with l32 wN show False by linarith
    qed
    with gt have wl: "2 ^ k < w + l" by simp
    have "memcpy b1 0 src (2 ^ k - w) (l - (2 ^ k - w)) = None"
      if "memcpy (buffer_m rb) w src 0 (2 ^ k - w) = Some b1" for b1
    proof -
      from that have "length b1 = 2 ^ k"
        using wN by (auto simp add: memcpy_def N split: if_splits)
      then show ?thesis
        using big wl wN by (auto simp add: memcpy_def N simp flip: l_def)
    qed
    then show ?thesis using True by (simp split: option.splits)
  next
    case False
    have "memcpy (buffer_m rb) w src 0 l = None"
      using big by (auto simp add: memcpy_def N simp flip: l_def)
    then show ?thesis using False by simp
  qed
  show ?thesis
    using l0 pass copied
    unfolding write_rb_def w_def l_def
    by (cases "capacity rb < (write_index_m rb AND index_mask rb) + len")
       (simp_all add: buffered_bytes_ok[OF inv] Let_def left[unfolded w_def] cap N)
qed

lemma pow2_le_30: "k < 31 \<Longrightarrow> (2::nat) ^ k \<le> 2 ^ 30"
  by (rule power_increasing) simp_all

lemma write_rb_not_success:
  "write_rb ndebug rb data len = Inr (e, rb') \<Longrightarrow> e \<noteq> Success \<Longrightarrow> rb' = rb"
  by (auto simp add: write_rb_def Let_def split: option.splits if_splits sum.splits)

lemma write_rb_Success:
  assumes inv: "rb_inv rb" and res: "write_rb ndebug rb data len = Inr (Success, rb')"
  obtains src where "data = Some src" "len \<noteq> 0"
    "unat (buffered_bytes_m rb) + unat len \<le> length (buffer_m rb)"
    "unat len \<le> length src"
    "rb_inv rb'" "contents rb' = contents rb @ take (unat len) src"
    "length (buffer_m rb') = length (buffer_m rb)"
proof -
  from res obtain src where d: "data = Some src" and l0: "len \<noteq> 0"
    by (cases data) (auto simp add: write_rb_def split: if_splits)
  from inv obtain k where k: "k < 31" and N: "length (buffer_m rb) = 2 ^ k"
    and cap: "unat (capacity rb) = 2 ^ k" and bN: "unat (buffered_bytes_m rb) \<le> 2 ^ k"
    by (rule rb_inv_pow)
  have N31: "(2::nat) ^ k \<le> 2 ^ 30" by (rule pow2_le_30[OF k])
  have pass: "\<not> capacity rb < buffered_bytes_m rb + len"
    using res l0 by (auto simp add: write_rb_def d buffered_bytes_ok[OF inv] split: if_splits)
  have small: "\<not> (2 * length (buffer_m rb) < unat len \<or> length src < unat len)"
    using write_rb_oob[OF inv l0 pass, of src ndebug] res d by auto
  then have "unat (buffered_bytes_m rb) + unat len < 2 ^ 32"
    using bN N31 by (simp add: N)
  then have "unat (buffered_bytes_m rb + len) = unat (buffered_bytes_m rb) + unat len"
    using unat_add_lem[of "buffered_bytes_m rb" len] by simp
  then have fit: "unat (buffered_bytes_m rb) + unat len \<le> length (buffer_m rb)"
    using pass by (simp add: word_less_nat_alt cap N)
  have src: "unat len \<le> length src" using small by simp
  from write_rb_ok[OF inv l0 fit src, of ndebug] res d
  show thesis by (auto intro: that[OF d l0 fit src])
qed

lemma write_rb_fault:
  assumes inv: "rb_inv rb" and res: "write_rb ndebug rb data len = Inl f"
  shows "f = OutOfBounds"
proof -
  from res obtain src where d: "data = Some src" and l0: "len \<noteq> 0"
    by (cases data) (auto simp add: write_rb_def split: if_splits)
  from inv obtain k where k: "k < 31" and N: "length (buffer_m rb) = 2 ^ k"
    and cap: "unat (capacity rb) = 2 ^ k" and bN: "unat (buffered_bytes_m rb) \<le> 2 ^ k"
    by (rule rb_inv_pow)
  have N31: "(2::nat) ^ k \<le> 2 ^ 30" by (rule pow2_le_30[OF k])
  have pass: "\<not> capacity rb < buffered_bytes_m rb + len"
    using res l0 by (auto simp add: write_rb_def d buffered_bytes_ok[OF inv] split: if_splits)
  show ?thesis
  proof (cases "2 * length (buffer_m rb) < unat len \<or> length src < unat len")
    case True
    from write_rb_oob[OF inv l0 pass True, of ndebug] res d show ?thesis by simp
  next
    case False
    then have "unat (buffered_bytes_m rb) + unat len < 2 ^ 32"
      using bN N31 by (simp add: N)
    then have "unat (buffered_bytes_m rb + len) = unat (buffered_bytes_m rb) + unat len"
      using unat_add_lem[of "buffered_bytes_m rb" len] by simp
    then have fit: "unat (buffered_bytes_m rb) + unat len \<le> length (buffer_m rb)"
      using pass by (simp add: word_less_nat_alt cap N)
    have src: "unat len \<le> length src" using False by simp
    from write_rb_ok[OF inv l0 fit src, of ndebug] res d show ?thesis by auto
  qed
qed

section \<open>Bytes and numbers\<close>

lemma bit_u8_high: "bit (b :: u8) (8 + n) = False" "bit (b :: u8) (16 + n) = False"
  "bit (b :: u8) (24 + n) = False"
  by (auto dest: bit_imp_le_length)

lemma load_store_u16: "load_u16 le (store_u16 le v) = v"
proof (rule bit_word_eqI)
  fix n assume "n < LENGTH(16)"
  then consider "n < 8" | "8 \<le> n" "n < 16" by fastforce
  then show "bit (load_u16 le (store_u16 le v)) n = bit v n"
  proof cases
    case 1
    then show ?thesis by (auto simp add: load_u16_def store_u16_def bit_simps)
  next
    case 2
    then show ?thesis by (auto simp add: load_u16_def store_u16_def bit_simps)
  qed
qed

lemma load_store_u32: "load_u32 le (store_u32 le v) = v"
proof (rule bit_word_eqI)
  fix n assume "n < LENGTH(32)"
  then consider "n < 8" | "8 \<le> n" "n < 16" | "16 \<le> n" "n < 24" | "24 \<le> n" "n < 32"
    by fastforce
  then show "bit (load_u32 le (store_u32 le v)) n = bit v n"
  proof cases
    case 1
    then show ?thesis by (auto simp add: load_u32_def store_u32_def bit_simps)
  next
    case 2
    then show ?thesis by (auto simp add: load_u32_def store_u32_def bit_simps)
  next
    case 3
    then show ?thesis by (auto simp add: load_u32_def store_u32_def bit_simps)
  next
    case 4
    then show ?thesis by (auto simp add: load_u32_def store_u32_def bit_simps)
  qed
qed


lemma store_load_u16: "length bs = 2 \<Longrightarrow> store_u16 le (load_u16 le bs) = bs"
proof -
  assume "length bs = 2"
  then obtain b0 b1 where bs: "bs = [b0, b1]"
    by (metis (no_types, opaque_lifting) One_nat_def Suc_1 length_0_conv length_Suc_conv)
  have "ucast (push_bit 8 (ucast b1 :: u16) OR ucast b0) = b0"
    by (rule bit_word_eqI) (auto simp add: bit_simps)
  moreover have "ucast (drop_bit 8 (push_bit 8 (ucast b1 :: u16) OR ucast b0)) = b1"
    by (rule bit_word_eqI) (auto simp add: bit_simps bit_u8_high)
  moreover have "ucast (push_bit 8 (ucast b0 :: u16) OR ucast b1) = b1"
    by (rule bit_word_eqI) (auto simp add: bit_simps)
  moreover have "ucast (drop_bit 8 (push_bit 8 (ucast b0 :: u16) OR ucast b1)) = b0"
    by (rule bit_word_eqI) (auto simp add: bit_simps bit_u8_high)
  ultimately show ?thesis
    by (simp add: bs load_u16_def store_u16_def)
qed


lemma bytes_of_u32:
  fixes a b c d :: u8
  defines "W \<equiv> (push_bit 24 (ucast a) OR push_bit 16 (ucast b) OR push_bit 8 (ucast c) OR ucast d :: u32)"
  shows "ucast (drop_bit 24 W) = a" "ucast (drop_bit 16 W) = b"
    "ucast (drop_bit 8 W) = c" "ucast W = d"
proof -
  show "ucast (drop_bit 24 W) = a"
    unfolding W_def by (rule bit_word_eqI) (auto simp add: bit_simps bit_u8_high)
  show "ucast (drop_bit 16 W) = b"
    unfolding W_def by (rule bit_word_eqI) (auto simp add: bit_simps bit_u8_high)
  show "ucast (drop_bit 8 W) = c"
    unfolding W_def by (rule bit_word_eqI) (auto simp add: bit_simps bit_u8_high)
  show "ucast W = d"
    unfolding W_def by (rule bit_word_eqI) (auto simp add: bit_simps bit_u8_high)
qed

lemma store_load_u32: "length bs = 4 \<Longrightarrow> store_u32 le (load_u32 le bs) = bs"
proof -
  assume "length bs = 4"
  then obtain b0 b1 b2 b3 where bs: "bs = [b0, b1, b2, b3]"
    by (auto simp add: length_Suc_conv numeral_eq_Suc)
  have LT: "load_u32 True bs
      = push_bit 24 (ucast b3) OR push_bit 16 (ucast b2) OR push_bit 8 (ucast b1) OR ucast b0"
    by (simp add: bs load_u32_def)
  have T: "store_u32 True (load_u32 True bs) = bs"
    unfolding store_u32_def LT by (simp only: bytes_of_u32 if_True bs)
  have LF: "load_u32 False bs
      = push_bit 24 (ucast b0) OR push_bit 16 (ucast b1) OR push_bit 8 (ucast b2) OR ucast b3"
    by (simp add: bs load_u32_def)
  have F: "store_u32 False (load_u32 False bs) = bs"
    unfolding store_u32_def LF by (simp only: bytes_of_u32 if_False bs)
  show ?thesis using T F by (cases le) simp_all
qed

lemma ntohs_load: "length bs = 2 \<Longrightarrow> ntohs le (load_u16 le bs) = load_u16 False bs"
  by (simp add: ntohs_def store_load_u16)

lemma ntohl_load: "length bs = 4 \<Longrightarrow> ntohl le (load_u32 le bs) = load_u32 False bs"
  by (simp add: ntohl_def store_load_u32)

lemma length_store_u16: "length (store_u16 le v) = 2"
  by (simp add: store_u16_def)

lemma length_store_u32: "length (store_u32 le v) = 4"
  by (simp add: store_u32_def)

lemma ucast_u16_u32: "ucast (ucast (v :: u16) :: u32) = v"
  by (rule bit_word_eqI) (auto simp add: bit_simps)

lemma length_set_body_length:
  assumes "layout_ok P" "length h = sizeof_header P"
  shows "length (set_body_length P h v) = length h"
  using assms
  by (auto simp add: set_body_length_def layout_ok_def sizeof_body_length_def
      length_store_u16 length_store_u32)

lemma body_length_set:
  assumes "layout_ok P" "length h = sizeof_header P"
  shows "body_length P (set_body_length P h v)
       = (if body_length_is_u32 P then v else ucast (ucast v :: u16))"
  using assms
  by (auto simp add: set_body_length_def body_length_def layout_ok_def sizeof_body_length_def
      length_store_u16 length_store_u32 load_store_u16 load_store_u32)

lemma body_length_set_zero:
  assumes "layout_ok P" "length h = sizeof_header P"
  shows "body_length P (set_body_length P h 0) = 0"
  using assms by (simp add: body_length_set)

lemma length_DoBytesOrderConversion:
  assumes "layout_ok P" "length h = sizeof_header P"
  shows "length (DoBytesOrderConversion P h) = length h"
  using assms by (simp add: DoBytesOrderConversion_def length_set_body_length)

lemma body_length_DoBytesOrderConversion:
  assumes "layout_ok P" "length h = sizeof_header P"
  shows "body_length P (DoBytesOrderConversion P h) = wire_length P h"
proof (cases "body_length_is_u32 P")
  case True
  have len: "length (take 4 (drop (offsetof_body_length P) h)) = 4"
    using assms True by (auto simp add: layout_ok_def sizeof_body_length_def)
  show ?thesis
    using True assms
    by (simp add: DoBytesOrderConversion_def sizeof_body_length_def body_length_set
        wire_length_def) (simp add: body_length_def ntohl_load[OF len])
next
  case False
  have len: "length (take 2 (drop (offsetof_body_length P) h)) = 2"
    using assms False by (auto simp add: layout_ok_def sizeof_body_length_def)
  show ?thesis
    using False assms
    by (simp add: DoBytesOrderConversion_def sizeof_body_length_def body_length_set
        wire_length_def) (simp add: body_length_def ucast_u16_u32 ntohs_load[OF len])
qed

section \<open>The transitions of the parser\<close>

lemma layout_ok_size:
  assumes "layout_ok P"
  shows "unat (protocol_header_length P) = sizeof_header P" and "0 < sizeof_header P"
proof -
  have "sizeof_header P < 2 ^ 32" using assms by (simp add: layout_ok_def)
  then show "unat (protocol_header_length P) = sizeof_header P"
    unfolding protocol_header_length_def by (rule unat_of_nat_u32)
  show "0 < sizeof_header P"
    using assms by (simp add: layout_ok_def sizeof_body_length_def split: if_splits)
qed

lemma header_step:
  assumes inv: "parser_inv P ps" and st: "recv_state_m ps = READ_HEADER"
    and enough: "sizeof_header P \<le> unat (buffered_bytes_m (recv_buffer_m ps))"
  obtains rb' where
    "PerformStreamingParse ndebug P ps u =
       Inr (False,
            snd (header_handler_m ps u
                   (DoBytesOrderConversion P (take (sizeof_header P) (contents (recv_buffer_m ps))))),
            ps\<lparr>current_header_m :=
                  DoBytesOrderConversion P (take (sizeof_header P) (contents (recv_buffer_m ps))),
               recv_buffer_m := rb', recv_state_m := READ_BODY\<rparr>)"
    "rb_inv rb'"
    "contents rb' = drop (sizeof_header P) (contents (recv_buffer_m ps))"
    "buffer_m rb' = buffer_m (recv_buffer_m ps)"
    "unat (buffered_bytes_m rb') = unat (buffered_bytes_m (recv_buffer_m ps)) - sizeof_header P"
proof -
  let ?rb = "recv_buffer_m ps"
  from inv have lo: "layout_ok P" and ri: "rb_inv ?rb"
    and hl: "length (current_header_m ps) = sizeof_header P"
    by (simp_all add: parser_inv_def)
  note sz = layout_ok_size[OF lo]
  have ge: "protocol_header_length P \<le> buffered_bytes_m ?rb"
    using enough by (simp add: word_le_nat_alt sz)
  then have mn: "min (protocol_header_length P) (buffered_bytes_m ?rb) = protocol_header_length P"
    by (simp add: min_def)
  have room: "unat (min (protocol_header_length P) (buffered_bytes_m ?rb))
      \<le> length (current_header_m ps)"
    by (simp add: mn sz hl)
  from read_ok[OF ri room, of ndebug] obtain rb' where
    r: "read ndebug ?rb (Some (current_header_m ps)) (protocol_header_length P) =
          Inr (protocol_header_length P,
               Some (take (sizeof_header P) (contents ?rb)
                     @ drop (sizeof_header P) (current_header_m ps)), rb')"
    and i: "rb_inv rb'" and ct: "contents rb' = drop (sizeof_header P) (contents ?rb)"
    and b: "buffered_bytes_m rb' = buffered_bytes_m ?rb - protocol_header_length P"
    and n: "buffer_m rb' = buffer_m ?rb"
    unfolding mn sz by blast
  have sub: "unat (buffered_bytes_m ?rb - protocol_header_length P)
      = unat (buffered_bytes_m ?rb) - sizeof_header P"
    using unat_sub[OF ge] by (simp add: sz)
  have res: "PerformStreamingParse ndebug P ps u =
       Inr (False,
            snd (header_handler_m ps u
                   (DoBytesOrderConversion P (take (sizeof_header P) (contents ?rb)))),
            ps\<lparr>current_header_m :=
                  DoBytesOrderConversion P (take (sizeof_header P) (contents ?rb)),
               recv_buffer_m := rb', recv_state_m := READ_BODY\<rparr>)"
    using ge
    by (simp add: PerformStreamingParse_def st buffered_bytes_ok[OF ri] r hl Let_def
        split: prod.splits)
  show thesis
    by (rule that[OF res i ct n]) (simp add: b sub)
qed

lemma body_step:
  assumes inv: "parser_inv P ps" and st: "recv_state_m ps = READ_BODY"
    and enough: "body_length P (current_header_m ps) \<le> buffered_bytes_m (recv_buffer_m ps)"
    and asrt: "ndebug \<or> 0 < body_length P (current_header_m ps)"
  shows "PerformStreamingParse ndebug P ps u =
     (if body_length P (current_header_m ps) = 0
      then Inr (False, u,
                ps\<lparr>recv_buffer_m := recv_buffer_m ps, recv_state_m := READ_HEADER,
                   current_header_m := set_body_length P (current_header_m ps) 0\<rparr>)
      else
        (case body_handler_m ps u
                (take (unat (body_length P (current_header_m ps))) (contents (recv_buffer_m ps)))
                (body_length P (current_header_m ps)) of
           (accepted, u') \<Rightarrow>
             Inr (False, u',
                  ps\<lparr>recv_buffer_m :=
                        (if accepted
                         then (recv_buffer_m ps)
                                \<lparr>read_index_m :=
                                   (read_index_m (recv_buffer_m ps) AND index_mask (recv_buffer_m ps))
                                   + body_length P (current_header_m ps),
                                 buffered_bytes_m :=
                                   buffered_bytes_m (recv_buffer_m ps)
                                   - body_length P (current_header_m ps)\<rparr>
                         else recv_buffer_m ps),
                     recv_state_m := READ_HEADER,
                     current_header_m := set_body_length P (current_header_m ps) 0\<rparr>)))"
proof -
  let ?rb = "recv_buffer_m ps"
  from inv have ri: "rb_inv ?rb" by (simp add: parser_inv_def)
  have mn: "min (body_length P (current_header_m ps)) (buffered_bytes_m ?rb)
      = body_length P (current_header_m ps)"
    using enough by (simp add: min_def)
  have nz: "buffered_bytes_m ?rb \<noteq> 0" if "body_length P (current_header_m ps) \<noteq> 0"
    using that enough by auto
  show ?thesis
    using enough asrt nz
    by (auto simp add: PerformStreamingParse_def st buffered_bytes_ok[OF ri] read_cb_ok[OF ri] mn
        word_greater_zero_iff split: prod.splits)
qed

lemma body_step_assert:
  assumes "recv_state_m ps = READ_BODY" "\<not> ndebug" "body_length P (current_header_m ps) = 0"
  shows "PerformStreamingParse ndebug P ps u = Inl AssertionFailed"
  using assms by (simp add: PerformStreamingParse_def)

lemma loop_condition_ok:
  assumes "parser_inv P ps"
  shows "loop_condition ndebug P ps =
     Inr (case recv_state_m ps of
            READ_HEADER \<Rightarrow> sizeof_header P \<le> unat (buffered_bytes_m (recv_buffer_m ps))
          | READ_BODY \<Rightarrow> body_length P (current_header_m ps) \<le> buffered_bytes_m (recv_buffer_m ps))"
proof -
  from assms have lo: "layout_ok P" and ri: "rb_inv (recv_buffer_m ps)"
    by (simp_all add: parser_inv_def)
  show ?thesis
    by (simp add: loop_condition_def buffered_bytes_ok[OF ri] word_le_nat_alt
        layout_ok_size[OF lo] split: RecvState.splits)
qed

lemma parse_loop_stop:
  "loop_condition ndebug P ps = Inr False \<Longrightarrow> parse_loop ndebug P ps u = Some (Inr (u, ps))"
  by (subst parse_loop.simps) simp

lemma parse_loop_step:
  "loop_condition ndebug P ps = Inr True \<Longrightarrow>
   PerformStreamingParse ndebug P ps u = Inr (False, u', ps') \<Longrightarrow>
   parse_loop ndebug P ps u = parse_loop ndebug P ps' u'"
  by (subst parse_loop.simps) simp

lemma parse_loop_fault:
  "loop_condition ndebug P ps = Inr True \<Longrightarrow>
   PerformStreamingParse ndebug P ps u = Inl f \<Longrightarrow>
   parse_loop ndebug P ps u = Some (Inl f)"
  by (subst parse_loop.simps) simp

lemma parse_loop_total:
  assumes "parser_inv P ps"
  shows "\<exists>r. parse_loop ndebug P ps u = Some r
           \<and> (case r of
                 Inl f \<Rightarrow> f = AssertionFailed \<and> \<not> ndebug
               | Inr (u', ps') \<Rightarrow> parser_inv P ps')"
  using assms
proof (induction "loop_measure ps" arbitrary: ps u rule: less_induct)
  case less
  note inv = less.prems
  let ?rb = "recv_buffer_m ps"
  from inv have lo: "layout_ok P" and ri: "rb_inv ?rb"
    and n2048: "length (buffer_m ?rb) = 2048"
    and hl: "length (current_header_m ps) = sizeof_header P"
    by (simp_all add: parser_inv_def)
  note cond = loop_condition_ok[OF inv, of ndebug]
  show ?case
  proof (cases "recv_state_m ps")
    case READ_HEADER
    show ?thesis
    proof (cases "sizeof_header P \<le> unat (buffered_bytes_m ?rb)")
      case False
      then have "loop_condition ndebug P ps = Inr False" by (simp add: cond READ_HEADER)
      then show ?thesis using inv by (simp add: parse_loop_stop)
    next
      case True
      then have go: "loop_condition ndebug P ps = Inr True" by (simp add: cond READ_HEADER)
      let ?H = "DoBytesOrderConversion P (take (sizeof_header P) (contents ?rb))"
      from header_step[OF inv READ_HEADER True, of ndebug u] obtain rb' where
        st: "PerformStreamingParse ndebug P ps u =
               Inr (False, snd (header_handler_m ps u ?H),
                    ps\<lparr>current_header_m := ?H, recv_buffer_m := rb', recv_state_m := READ_BODY\<rparr>)"
        and i: "rb_inv rb'" and bf: "buffer_m rb' = buffer_m ?rb"
        and b: "unat (buffered_bytes_m rb') = unat (buffered_bytes_m ?rb) - sizeof_header P"
        by blast
      let ?ps = "ps\<lparr>current_header_m := ?H, recv_buffer_m := rb', recv_state_m := READ_BODY\<rparr>"
      have "length (take (sizeof_header P) (contents ?rb)) = sizeof_header P"
        using True by (simp add: length_contents[OF ri])
      then have "length ?H = sizeof_header P"
        by (simp add: length_DoBytesOrderConversion[OF lo])
      then have inv': "parser_inv P ?ps"
        using lo i bf n2048 by (simp add: parser_inv_def)
      have "loop_measure ?ps < loop_measure ps"
        using True layout_ok_size(2)[OF lo] by (simp add: loop_measure_def b READ_HEADER)
      from less.hyps[OF this inv'] show ?thesis
        by (simp add: parse_loop_step[OF go st])
    qed
  next
    case READ_BODY
    let ?L = "body_length P (current_header_m ps)"
    show ?thesis
    proof (cases "?L \<le> buffered_bytes_m ?rb")
      case False
      then have "loop_condition ndebug P ps = Inr False" by (simp add: cond READ_BODY)
      then show ?thesis using inv by (simp add: parse_loop_stop)
    next
      case True
      then have go: "loop_condition ndebug P ps = Inr True" by (simp add: cond READ_BODY)
      show ?thesis
      proof (cases "ndebug \<or> 0 < ?L")
        case False
        then have "PerformStreamingParse ndebug P ps u = Inl AssertionFailed"
          by (intro body_step_assert[OF READ_BODY]) (simp_all add: word_greater_zero_iff)
        then have "parse_loop ndebug P ps u = Some (Inl AssertionFailed)"
          by (rule parse_loop_fault[OF go])
        then show ?thesis using False by simp
      next
        case asrt: True
        obtain accepted u1 where bh: "body_handler_m ps u (take (unat ?L) (contents ?rb)) ?L = (accepted, u1)"
          by (cases "body_handler_m ps u (take (unat ?L) (contents ?rb)) ?L")
        define rb' where "rb' = (if ?L \<noteq> 0 \<and> accepted
                         then ?rb\<lparr>read_index_m := (read_index_m ?rb AND index_mask ?rb) + ?L,
                                 buffered_bytes_m := buffered_bytes_m ?rb - ?L\<rparr>
                         else ?rb)"
        define u' where "u' = (if ?L = 0 then u else u1)"
        let ?ps = "ps\<lparr>recv_buffer_m := rb', recv_state_m := READ_HEADER,
                      current_header_m := set_body_length P (current_header_m ps) 0\<rparr>"
        have st: "PerformStreamingParse ndebug P ps u = Inr (False, u', ?ps)"
          by (simp add: body_step[OF inv READ_BODY True asrt] bh rb'_def u'_def)
        have i: "rb_inv rb'" and bf: "buffer_m rb' = buffer_m ?rb"
          and b: "unat (buffered_bytes_m rb') \<le> unat (buffered_bytes_m ?rb)"
          using consume_ok(1)[OF ri True refl] ri unat_sub[OF True]
          by (simp_all add: rb'_def)
        have inv': "parser_inv P ?ps"
          using lo i bf n2048 hl by (simp add: parser_inv_def length_set_body_length[OF lo])
        have "loop_measure ?ps < loop_measure ps"
          using b by (simp add: loop_measure_def READ_BODY)
        from less.hyps[OF this inv'] show ?thesis
          by (simp add: parse_loop_step[OF go st])
      qed
    qed
  qed
qed

lemma parser_inv_buffer:
  assumes "parser_inv P ps" "rb_inv rb'" "length (buffer_m rb') = length (buffer_m (recv_buffer_m ps))"
  shows "parser_inv P (ps\<lparr>recv_buffer_m := rb'\<rparr>)"
  using assms by (simp add: parser_inv_def)

lemma StreamingParser_new_ok:
  "StreamingParser_new ndebug hh bh h0 =
     Inr \<lparr>recv_state_m = READ_HEADER, current_header_m = h0,
          header_handler_m = hh, body_handler_m = bh,
          recv_buffer_m = \<lparr>index_mask = 2047, buffer_m = replicate 2048 0, read_index_m = 0,
                            write_index_m = 0, buffered_bytes_m = 0\<rparr>\<rparr>"
  by (simp add: StreamingParser_new_def RingBuffer_default_def RingBuffer_new_def
      IS_POWER_OF_TWO_def)

lemma rb_inv_default:
  "rb_inv \<lparr>index_mask = 2047, buffer_m = replicate 2048 0, read_index_m = 0,
           write_index_m = 0, buffered_bytes_m = 0\<rparr>"
  by (rule rb_invI[of 11]) simp_all

lemma parser_inv_new:
  assumes "layout_ok P" "length h0 = sizeof_header P"
  shows "parser_inv P
     \<lparr>recv_state_m = READ_HEADER, current_header_m = h0,
      header_handler_m = hh, body_handler_m = bh,
      recv_buffer_m = \<lparr>index_mask = 2047, buffer_m = replicate 2048 0, read_index_m = 0,
                        write_index_m = 0, buffered_bytes_m = 0\<rparr>\<rparr>"
  using assms rb_inv_default by (simp add: parser_inv_def)

subsection \<open>The two builds\<close>

text \<open>
  With the assertions compiled in, the loop does what it does without them, up to the
  first transition at which an assertion fails.
\<close>

lemma meets_empty_body_stop:
  "loop_condition True P ps = Inr False \<Longrightarrow> meets_empty_body P ps u = Some False"
  by (subst meets_empty_body.simps) simp

lemma meets_empty_body_here:
  "loop_condition True P ps = Inr True \<Longrightarrow> recv_state_m ps = READ_BODY \<Longrightarrow>
   body_length P (current_header_m ps) = 0 \<Longrightarrow> meets_empty_body P ps u = Some True"
  by (subst meets_empty_body.simps) simp

lemma meets_empty_body_step:
  "loop_condition True P ps = Inr True \<Longrightarrow>
   \<not> (recv_state_m ps = READ_BODY \<and> body_length P (current_header_m ps) = 0) \<Longrightarrow>
   PerformStreamingParse True P ps u = Inr (False, u', ps') \<Longrightarrow>
   meets_empty_body P ps u = meets_empty_body P ps' u'"
  by (subst meets_empty_body.simps) auto

lemma read_build:
  assumes inv: "rb_inv rb" and room: "unat (min len (buffered_bytes_m rb)) \<le> length dst"
  shows "read ndebug rb (Some dst) len = read True rb (Some dst) len"
proof -
  from read_ok[OF inv room, of ndebug] obtain rb' where
    r: "read ndebug rb (Some dst) len =
       Inr (min len (buffered_bytes_m rb),
            Some (take (unat (min len (buffered_bytes_m rb))) (contents rb)
                  @ drop (unat (min len (buffered_bytes_m rb))) dst),
            rb')"
    by blast
  then show ?thesis
    by (auto simp add: read_def buffered_bytes_def Let_def split: if_splits option.splits)
qed

lemma step_build:
  assumes inv: "parser_inv P ps"
    and ne: "\<not> (recv_state_m ps = READ_BODY \<and> body_length P (current_header_m ps) = 0)"
  shows "PerformStreamingParse ndebug P ps u = PerformStreamingParse True P ps u"
proof (cases "recv_state_m ps")
  case READ_HEADER
  from inv have lo: "layout_ok P" and ri: "rb_inv (recv_buffer_m ps)"
    and hl: "length (current_header_m ps) = sizeof_header P"
    by (simp_all add: parser_inv_def)
  have "unat (min (protocol_header_length P) (buffered_bytes_m (recv_buffer_m ps)))
      \<le> length (current_header_m ps)"
    by (simp add: unat_min layout_ok_size(1)[OF lo] hl)
  from read_build[OF ri this, where ndebug = ndebug]
  show ?thesis
    by (simp add: PerformStreamingParse_def READ_HEADER buffered_bytes_ok[OF ri])
next
  case READ_BODY
  with ne have nz: "body_length P (current_header_m ps) \<noteq> 0" by simp
  from inv have ri: "rb_inv (recv_buffer_m ps)" by (simp add: parser_inv_def)
  show ?thesis
    using nz
    by (simp add: PerformStreamingParse_def READ_BODY buffered_bytes_ok[OF ri]
        read_cb_ok[OF ri] word_greater_zero_iff)
qed

lemma parse_loop_build:
  assumes "parser_inv P ps"
  shows "\<exists>u' ps' b.
           parse_loop True P ps u = Some (Inr (u', ps'))
           \<and> parser_inv P ps'
           \<and> meets_empty_body P ps u = Some b
           \<and> parse_loop False P ps u = (if b then Some (Inl AssertionFailed) else Some (Inr (u', ps')))"
  using assms
proof (induction "loop_measure ps" arbitrary: ps u rule: less_induct)
  case less
  note inv = less.prems
  let ?rb = "recv_buffer_m ps"
  from inv have lo: "layout_ok P" and ri: "rb_inv ?rb"
    and n2048: "length (buffer_m ?rb) = 2048"
    and hl: "length (current_header_m ps) = sizeof_header P"
    by (simp_all add: parser_inv_def)
  note cond = loop_condition_ok[OF inv]
  show ?case
  proof (cases "loop_condition True P ps = Inr True")
    case False
    then have stop: "loop_condition True P ps = Inr False" by (simp add: cond)
    then have stop': "loop_condition False P ps = Inr False" by (simp add: cond)
    show ?thesis
      using inv
      by (intro exI[of _ u] exI[of _ ps] exI[of _ False])
         (simp add: parse_loop_stop[OF stop] parse_loop_stop[OF stop']
          meets_empty_body_stop[OF stop])
  next
    case go: True
    then have go': "loop_condition False P ps = Inr True" by (simp add: cond)
    show ?thesis
    proof (cases "recv_state_m ps = READ_BODY \<and> body_length P (current_header_m ps) = 0")
      case True
      then have st: "recv_state_m ps = READ_BODY" and z: "body_length P (current_header_m ps) = 0"
        by simp_all
      have a: "parse_loop False P ps u = Some (Inl AssertionFailed)"
        by (rule parse_loop_fault[OF go']) (simp add: body_step_assert[OF st _ z])
      have m: "meets_empty_body P ps u = Some True"
        by (rule meets_empty_body_here[OF go st z])
      from parse_loop_total[OF inv, of True u] obtain r where
        r: "parse_loop True P ps u = Some r"
        and c: "case r of Inl f \<Rightarrow> f = AssertionFailed \<and> \<not> True
                | Inr (u', ps') \<Rightarrow> parser_inv P ps'"
        by blast
      from c obtain u' ps' where "r = Inr (u', ps')" "parser_inv P ps'"
        by (cases r) auto
      then show ?thesis using a m r by auto
    next
      case ne: False
      note same = step_build[OF inv ne, of False u]
      have "\<exists>u1 ps1. PerformStreamingParse True P ps u = Inr (False, u1, ps1)
              \<and> parser_inv P ps1 \<and> loop_measure ps1 < loop_measure ps"
      proof (cases "recv_state_m ps")
        case READ_HEADER
        from go have en: "sizeof_header P \<le> unat (buffered_bytes_m ?rb)"
          by (simp add: cond READ_HEADER)
        let ?H = "DoBytesOrderConversion P (take (sizeof_header P) (contents ?rb))"
        from header_step[OF inv READ_HEADER en, of True u] obtain rb' where
          st: "PerformStreamingParse True P ps u =
                 Inr (False, snd (header_handler_m ps u ?H),
                      ps\<lparr>current_header_m := ?H, recv_buffer_m := rb', recv_state_m := READ_BODY\<rparr>)"
          and i: "rb_inv rb'" and bf: "buffer_m rb' = buffer_m ?rb"
          and b: "unat (buffered_bytes_m rb') = unat (buffered_bytes_m ?rb) - sizeof_header P"
          by blast
        let ?ps = "ps\<lparr>current_header_m := ?H, recv_buffer_m := rb', recv_state_m := READ_BODY\<rparr>"
        have "length (take (sizeof_header P) (contents ?rb)) = sizeof_header P"
          using en by (simp add: length_contents[OF ri])
        then have "length ?H = sizeof_header P"
          by (simp add: length_DoBytesOrderConversion[OF lo])
        then have inv': "parser_inv P ?ps"
          using lo i bf n2048 by (simp add: parser_inv_def)
        have "loop_measure ?ps < loop_measure ps"
          using en layout_ok_size(2)[OF lo] by (simp add: loop_measure_def b READ_HEADER)
        then show ?thesis using st inv' by blast
      next
        case READ_BODY
        let ?L = "body_length P (current_header_m ps)"
        from go have en: "?L \<le> buffered_bytes_m ?rb" by (simp add: cond READ_BODY)
        from ne READ_BODY have nz: "?L \<noteq> 0" by simp
        obtain accepted u1 where bh: "body_handler_m ps u (take (unat ?L) (contents ?rb)) ?L = (accepted, u1)"
          by (cases "body_handler_m ps u (take (unat ?L) (contents ?rb)) ?L")
        define rb' where "rb' = (if accepted
                         then ?rb\<lparr>read_index_m := (read_index_m ?rb AND index_mask ?rb) + ?L,
                                 buffered_bytes_m := buffered_bytes_m ?rb - ?L\<rparr>
                         else ?rb)"
        let ?ps = "ps\<lparr>recv_buffer_m := rb', recv_state_m := READ_HEADER,
                      current_header_m := set_body_length P (current_header_m ps) 0\<rparr>"
        have st: "PerformStreamingParse True P ps u = Inr (False, u1, ?ps)"
          using nz by (simp add: body_step[OF inv READ_BODY en] bh rb'_def)
        have i: "rb_inv rb'" and bf: "buffer_m rb' = buffer_m ?rb"
          and b: "unat (buffered_bytes_m rb') \<le> unat (buffered_bytes_m ?rb)"
          using consume_ok(1)[OF ri en refl] ri unat_sub[OF en]
          by (simp_all add: rb'_def)
        have inv': "parser_inv P ?ps"
          using lo i bf n2048 hl by (simp add: parser_inv_def length_set_body_length[OF lo])
        have "loop_measure ?ps < loop_measure ps"
          using b by (simp add: loop_measure_def READ_BODY)
        then show ?thesis using st inv' by blast
      qed
      then obtain u1 ps1 where
        st: "PerformStreamingParse True P ps u = Inr (False, u1, ps1)"
        and inv1: "parser_inv P ps1" and lt: "loop_measure ps1 < loop_measure ps"
        by blast
      have st': "PerformStreamingParse False P ps u = Inr (False, u1, ps1)"
        using same st by simp
      from less.hyps[OF lt inv1, of u1] show ?thesis
        by (simp add: parse_loop_step[OF go st] parse_loop_step[OF go' st']
            meets_empty_body_step[OF go ne st])
    qed
  qed
qed


subsection \<open>One message in pieces\<close>

text \<open>
  A message that fits the store, given to a parser that waits for a header with an
  empty store, in any pieces: after each piece the parser is where the bytes given so
  far put it.
\<close>

lemma unat_buffered_contents:
  "rb_inv rb \<Longrightarrow> unat (buffered_bytes_m rb) = length (contents rb)"
  by (simp add: length_contents)

lemma delivered_stop:
  assumes d: "delivered P hdr body hh bh u0 n ps u"
    and hdr: "length hdr = sizeof_header P"
    and len: "wire_length P hdr = of_nat (length body)"
    and fits: "sizeof_header P + length body \<le> 2048"
    and n: "n \<le> sizeof_header P + length body"
  shows "loop_condition ndebug P ps = Inr False"
proof -
  from d have inv: "parser_inv P ps" by (simp add: delivered_def)
  then have lo: "layout_ok P" and ri: "rb_inv (recv_buffer_m ps)"
    by (simp_all add: parser_inv_def)
  have uL: "unat (of_nat (length body) :: u32) = length body"
    by (rule unat_of_nat_u32) (use fits in simp)
  have bl: "body_length P (DoBytesOrderConversion P hdr) = of_nat (length body)"
    using body_length_DoBytesOrderConversion[OF lo hdr] len by simp
  consider "n < sizeof_header P"
    | "sizeof_header P \<le> n" "n < sizeof_header P + length body"
    | "n = sizeof_header P + length body"
    using n by linarith
  then show ?thesis
  proof cases
    case 1
    with d have "recv_state_m ps = READ_HEADER"
      "contents (recv_buffer_m ps) = take n (hdr @ body)"
      by (simp_all add: delivered_def)
    then show ?thesis
      using 1 hdr by (simp add: loop_condition_ok[OF inv] unat_buffered_contents[OF ri])
  next
    case 2
    with d have "recv_state_m ps = READ_BODY"
      "current_header_m ps = DoBytesOrderConversion P hdr"
      "contents (recv_buffer_m ps) = drop (sizeof_header P) (take n (hdr @ body))"
      by (simp_all add: delivered_def)
    then show ?thesis
      using 2 hdr
      by (simp add: loop_condition_ok[OF inv] bl word_le_nat_alt uL
          unat_buffered_contents[OF ri])
  next
    case 3
    with d have "recv_state_m ps = READ_HEADER" "contents (recv_buffer_m ps) = []"
      using layout_ok_size(2)[OF lo] by (simp_all add: delivered_def)
    then show ?thesis
      using layout_ok_size(2)[OF lo]
      by (simp add: loop_condition_ok[OF inv] unat_buffered_contents[OF ri])
  qed
qed

lemma loop_in_body:
  assumes inv: "parser_inv P ps" and st: "recv_state_m ps = READ_BODY"
    and ch: "current_header_m ps = DoBytesOrderConversion P hdr"
    and hh: "header_handler_m ps = hh" and bh: "body_handler_m ps = bh"
    and acc: "\<And>v d l. fst (bh v d l)"
    and ct: "contents (recv_buffer_m ps) = drop (sizeof_header P) (take m (hdr @ body))"
    and m: "sizeof_header P \<le> m" "m \<le> sizeof_header P + length body"
    and hdr: "length hdr = sizeof_header P"
    and len: "wire_length P hdr = of_nat (length body)"
    and nz: "body \<noteq> []"
    and fits: "sizeof_header P + length body \<le> 2048"
  shows "\<exists>ps' u'.
           parse_loop ndebug P ps (snd (hh u0 (DoBytesOrderConversion P hdr)))
             = Some (Inr (u', ps'))
           \<and> delivered P hdr body hh bh u0 m ps' u'"
proof -
  let ?rb = "recv_buffer_m ps"
  let ?H = "DoBytesOrderConversion P hdr"
  let ?L = "of_nat (length body) :: u32"
  let ?u = "snd (hh u0 ?H)"
  from inv have lo: "layout_ok P" and ri: "rb_inv ?rb"
    and n2048: "length (buffer_m ?rb) = 2048"
    and hl: "length (current_header_m ps) = sizeof_header P"
    by (simp_all add: parser_inv_def)
  have uL: "unat ?L = length body"
    by (rule unat_of_nat_u32) (use fits in simp)
  have bl: "body_length P (current_header_m ps) = ?L"
    using body_length_DoBytesOrderConversion[OF lo hdr] len by (simp add: ch)
  have lc: "length (contents ?rb) = m - sizeof_header P"
    using m hdr by (simp add: ct)
  have ub: "unat (buffered_bytes_m ?rb) = m - sizeof_header P"
    using unat_buffered_contents[OF ri] lc by simp
  show ?thesis
  proof (cases "m < sizeof_header P + length body")
    case True
    then have "\<not> length body \<le> m - sizeof_header P" using m by linarith
    then have "loop_condition ndebug P ps = Inr False"
      by (simp add: loop_condition_ok[OF inv] st bl word_le_nat_alt uL ub)
    then have "parse_loop ndebug P ps ?u = Some (Inr (?u, ps))"
      by (rule parse_loop_stop)
    moreover have "delivered P hdr body hh bh u0 m ps ?u"
      using inv st ch hh bh ct m True by (simp add: delivered_def)
    ultimately show ?thesis by blast
  next
    case False
    with m have me: "m = sizeof_header P + length body" by simp
    have ge: "body_length P (current_header_m ps) \<le> buffered_bytes_m ?rb"
      by (simp add: bl word_le_nat_alt uL ub me)
    have go: "loop_condition ndebug P ps = Inr True"
      using ge by (simp add: loop_condition_ok[OF inv] st)
    have pos: "0 < body_length P (current_header_m ps)"
      using nz by (simp add: bl word_greater_zero_iff unat_eq_0[symmetric] uL)
    have cb: "contents ?rb = body" using hdr by (simp add: ct me)
    let ?rb' = "?rb\<lparr>read_index_m := (read_index_m ?rb AND index_mask ?rb) + ?L,
                     buffered_bytes_m := buffered_bytes_m ?rb - ?L\<rparr>"
    let ?ps' = "ps\<lparr>recv_buffer_m := ?rb', recv_state_m := READ_HEADER,
                     current_header_m := set_body_length P (current_header_m ps) 0\<rparr>"
    let ?u' = "snd (bh ?u body ?L)"
    have nzL: "?L \<noteq> 0" using pos bl by simp
    obtain a v where av: "bh ?u body ?L = (a, v)" by (cases "bh ?u body ?L")
    have a: "a" using acc[of ?u body ?L] by (simp add: av)
    have step: "PerformStreamingParse ndebug P ps ?u = Inr (False, ?u', ?ps')"
      using body_step[OF inv st ge, of ndebug ?u] pos nzL a
      by (simp add: bl bh uL cb av)
    have c: "rb_inv ?rb'" "contents ?rb' = drop (unat ?L) (contents ?rb)"
      using consume_ok(1,2)[OF ri ge[unfolded bl] refl] by simp_all
    have inv': "parser_inv P ?ps'"
      using lo c(1) n2048 hl by (simp add: parser_inv_def length_set_body_length[OF lo])
    have ce: "contents ?rb' = []" by (simp add: c(2) uL cb)
    have "unat (buffered_bytes_m ?rb') = 0"
      using unat_buffered_contents[OF c(1)] by (simp only: ce list.size)
    then have "loop_condition ndebug P ?ps' = Inr False"
      using layout_ok_size(2)[OF lo]
      by (simp add: loop_condition_ok[OF inv'])
    then have "parse_loop ndebug P ?ps' ?u' = Some (Inr (?u', ?ps'))"
      by (rule parse_loop_stop)
    then have "parse_loop ndebug P ps ?u = Some (Inr (?u', ?ps'))"
      by (simp add: parse_loop_step[OF go step])
    moreover have "delivered P hdr body hh bh u0 m ?ps' ?u'"
      using inv' hh bh ce me by (simp add: delivered_def)
    ultimately show ?thesis by blast
  qed
qed


lemma loop_in_header:
  assumes inv: "parser_inv P ps" and st: "recv_state_m ps = READ_HEADER"
    and hh: "header_handler_m ps = hh" and bh: "body_handler_m ps = bh"
    and acc: "\<And>v d l. fst (bh v d l)"
    and ct: "contents (recv_buffer_m ps) = take m (hdr @ body)"
    and m: "m \<le> sizeof_header P + length body"
    and hdr: "length hdr = sizeof_header P"
    and len: "wire_length P hdr = of_nat (length body)"
    and nz: "body \<noteq> []"
    and fits: "sizeof_header P + length body \<le> 2048"
  shows "\<exists>ps' u'.
           parse_loop ndebug P ps u0 = Some (Inr (u', ps'))
           \<and> delivered P hdr body hh bh u0 m ps' u'"
proof -
  let ?rb = "recv_buffer_m ps"
  let ?H = "DoBytesOrderConversion P hdr"
  from inv have lo: "layout_ok P" and ri: "rb_inv ?rb"
    and n2048: "length (buffer_m ?rb) = 2048"
    by (simp_all add: parser_inv_def)
  have lc: "length (contents ?rb) = m" using m hdr by (simp add: ct)
  have ub: "unat (buffered_bytes_m ?rb) = m"
    using unat_buffered_contents[OF ri] lc by simp
  show ?thesis
  proof (cases "m < sizeof_header P")
    case True
    then have "loop_condition ndebug P ps = Inr False"
      by (simp add: loop_condition_ok[OF inv] st ub)
    then have "parse_loop ndebug P ps u0 = Some (Inr (u0, ps))"
      by (rule parse_loop_stop)
    moreover have "delivered P hdr body hh bh u0 m ps u0"
      using inv st hh bh ct True by (simp add: delivered_def)
    ultimately show ?thesis by blast
  next
    case False
    then have ge: "sizeof_header P \<le> unat (buffered_bytes_m ?rb)" by (simp add: ub)
    have go: "loop_condition ndebug P ps = Inr True"
      using ge by (simp add: loop_condition_ok[OF inv] st)
    have raw: "take (sizeof_header P) (contents ?rb) = hdr"
      using False hdr by (simp add: ct min_def)
    from header_step[OF inv st ge, of ndebug u0] obtain rb' where
      step: "PerformStreamingParse ndebug P ps u0 =
               Inr (False, snd (hh u0 ?H),
                    ps\<lparr>current_header_m := ?H, recv_buffer_m := rb', recv_state_m := READ_BODY\<rparr>)"
      and i: "rb_inv rb'" and ct': "contents rb' = drop (sizeof_header P) (contents ?rb)"
      and bf: "buffer_m rb' = buffer_m ?rb"
      unfolding raw hh by blast
    let ?ps1 = "ps\<lparr>current_header_m := ?H, recv_buffer_m := rb', recv_state_m := READ_BODY\<rparr>"
    have hl: "length ?H = sizeof_header P"
      by (simp add: length_DoBytesOrderConversion[OF lo hdr] hdr)
    have inv1: "parser_inv P ?ps1"
      using lo i bf n2048 hl by (simp add: parser_inv_def)
    have st1: "recv_state_m ?ps1 = READ_BODY" and ch1: "current_header_m ?ps1 = ?H"
      and hh1: "header_handler_m ?ps1 = hh" and bh1: "body_handler_m ?ps1 = bh"
      and ct1: "contents (recv_buffer_m ?ps1) = drop (sizeof_header P) (take m (hdr @ body))"
      using hh bh by (simp_all add: ct' ct)
    have m1: "sizeof_header P \<le> m" using False by simp
    have "\<exists>ps' u'.
           parse_loop ndebug P ?ps1 (snd (hh u0 ?H)) = Some (Inr (u', ps'))
           \<and> delivered P hdr body hh bh u0 m ps' u'"
      by (rule loop_in_body[OF inv1 st1 ch1 hh1 bh1 acc ct1 m1 m hdr len nz fits])
    then show ?thesis by (simp add: parse_loop_step[OF go step])
  qed
qed

lemma HandleData_delivered:
  assumes d: "delivered P hdr body hh bh u0 n ps u"
    and acc: "\<And>v d l. fst (bh v d l)"
    and c: "take (length c) (drop n (hdr @ body)) = c"
    and n: "n + length c \<le> sizeof_header P + length body"
    and hdr: "length hdr = sizeof_header P"
    and len: "wire_length P hdr = of_nat (length body)"
    and nz: "body \<noteq> []"
    and fits: "sizeof_header P + length body \<le> 2048"
  shows "\<exists>ps' u'.
           HandleData ndebug P ps u (Some c) (of_nat (length c)) = Some (Inr (True, u', ps'))
           \<and> delivered P hdr body hh bh u0 (n + length c) ps' u'"
proof (cases "c = []")
  case True
  have "n \<le> sizeof_header P + length body" using n by simp
  from delivered_stop[OF d hdr len fits this, of ndebug]
  have "parse_loop ndebug P ps u = Some (Inr (u, ps))" by (rule parse_loop_stop)
  then show ?thesis using d True by (simp add: HandleData_def write_rb_def)
next
  case False
  let ?rb = "recv_buffer_m ps"
  let ?H = "DoBytesOrderConversion P hdr"
  let ?m = "n + length c"
  define M where "M = hdr @ body"
  have lM: "length M = sizeof_header P + length body" by (simp add: M_def hdr)
  from d have inv: "parser_inv P ps" and hh: "header_handler_m ps = hh"
    and bh: "body_handler_m ps = bh"
    by (simp_all add: delivered_def)
  from inv have lo: "layout_ok P" and ri: "rb_inv ?rb"
    and n2048: "length (buffer_m ?rb) = 2048"
    by (simp_all add: parser_inv_def)
  have nlt: "n < sizeof_header P + length body" using n False by (cases c) simp_all
  have "length c < 2 ^ 32" using n fits by simp
  then have ul: "unat (of_nat (length c) :: u32) = length c" by (rule unat_of_nat_u32)
  have l0: "(of_nat (length c) :: u32) \<noteq> 0"
  proof
    assume "(of_nat (length c) :: u32) = 0"
    then have "unat (of_nat (length c) :: u32) = 0" by simp
    then show False using ul False by simp
  qed
  have tk: "take n M @ c = take ?m M"
  proof -
    have "take ?m M = take n M @ take (length c) (drop n M)" by (rule take_add)
    then show ?thesis using c by (simp only: M_def)
  qed
  have ltk: "length (take n M) = n" using nlt lM by simp
  have cl: "length (contents ?rb) \<le> n"
  proof (cases "n < sizeof_header P")
    case True
    with d have "contents ?rb = take n M" by (simp add: delivered_def M_def)
    then show ?thesis by (simp only: ltk)
  next
    case False
    with d nlt have "contents ?rb = drop (sizeof_header P) (take n M)"
      by (simp add: delivered_def M_def)
    then have "length (contents ?rb) = n - sizeof_header P" by (simp only: length_drop ltk)
    then show ?thesis by simp
  qed
  have fit: "unat (buffered_bytes_m ?rb) + unat (of_nat (length c) :: u32) \<le> length (buffer_m ?rb)"
    using cl n fits by (simp add: unat_buffered_contents[OF ri] ul n2048)
  have src: "unat (of_nat (length c) :: u32) \<le> length c" by (simp add: ul)
  from write_rb_ok[OF ri l0 fit src, of ndebug] obtain rb' where
    w: "write_rb ndebug ?rb (Some c) (of_nat (length c)) = Inr (Success, rb')"
    and i: "rb_inv rb'" and ct0: "contents rb' = contents ?rb @ take (unat (of_nat (length c) :: u32)) c"
    and bf: "length (buffer_m rb') = length (buffer_m ?rb)"
    by blast
  have ct: "contents rb' = contents ?rb @ c" using ct0 by (simp add: ul)
  let ?ps1 = "ps\<lparr>recv_buffer_m := rb'\<rparr>"
  have inv1: "parser_inv P ?ps1" by (rule parser_inv_buffer[OF inv i bf])
  have hh1: "header_handler_m ?ps1 = hh" and bh1: "body_handler_m ?ps1 = bh"
    and rb1: "recv_buffer_m ?ps1 = rb'"
    using hh bh by simp_all
  have "\<exists>ps' u'. parse_loop ndebug P ?ps1 u = Some (Inr (u', ps'))
           \<and> delivered P hdr body hh bh u0 ?m ps' u'"
  proof (cases "n < sizeof_header P")
    case True
    with d have st: "recv_state_m ps = READ_HEADER"
      and co: "contents ?rb = take n M" and lg: "u = u0"
      by (simp_all add: delivered_def M_def)
    have ct1: "contents (recv_buffer_m ?ps1) = take ?m (hdr @ body)"
      unfolding rb1 ct co tk by (simp only: M_def)
    have st1': "recv_state_m ?ps1 = READ_HEADER" using st by simp
    show ?thesis
      unfolding lg
      by (rule loop_in_header[OF inv1 st1' hh1 bh1 acc ct1 n hdr len nz fits])
  next
    case False
    with d nlt have st: "recv_state_m ps = READ_BODY"
      and ch: "current_header_m ps = ?H"
      and co: "contents ?rb = drop (sizeof_header P) (take n M)"
      and lg: "u = snd (hh u0 ?H)"
      by (simp_all add: delivered_def M_def)
    have "drop (sizeof_header P) (take n M @ c) = drop (sizeof_header P) (take n M) @ c"
      using False ltk by (simp only: drop_append) simp
    then have e: "drop (sizeof_header P) (take n M) @ c = drop (sizeof_header P) (take ?m M)"
      by (simp only: tk)
    have ct1: "contents (recv_buffer_m ?ps1) = drop (sizeof_header P) (take ?m (hdr @ body))"
      unfolding rb1 ct co e by (simp only: M_def)
    have st1': "recv_state_m ?ps1 = READ_BODY" using st by simp
    have ch1': "current_header_m ?ps1 = ?H" using ch by simp
    have m1: "sizeof_header P \<le> ?m" using False by simp
    show ?thesis
      unfolding lg
      by (rule loop_in_body[OF inv1 st1' ch1' hh1 bh1 acc ct1 m1 n hdr len nz fits])
  qed
  then show ?thesis by (auto simp add: HandleData_def w)
qed

lemma feed_delivered:
  assumes "delivered P hdr body hh bh u0 n ps u"
    and "take (length (concat chunks)) (drop n (hdr @ body)) = concat chunks"
    and "n + length (concat chunks) \<le> sizeof_header P + length body"
    and acc: "\<And>v d l. fst (bh v d l)"
    and hdr: "length hdr = sizeof_header P"
    and len: "wire_length P hdr = of_nat (length body)"
    and nz: "body \<noteq> []"
    and fits: "sizeof_header P + length body \<le> 2048"
  shows "\<exists>ps' u'.
           feed ndebug P ps u chunks = Some (Inr (replicate (length chunks) True, u', ps'))
           \<and> delivered P hdr body hh bh u0 (n + length (concat chunks)) ps' u'"
  using assms(1-3)
proof (induction chunks arbitrary: n ps u)
  case Nil
  then show ?case by simp
next
  case (Cons c cs)
  define M where "M = hdr @ body"
  define a where "a = length c"
  define b where "b = length (concat cs)"
  from Cons.prems(2) have e: "take (a + b) (drop n M) = c @ concat cs"
    by (simp add: M_def a_def b_def)
  have "take a (take (a + b) (drop n M)) = take a (c @ concat cs)" by (simp only: e)
  then have "take a (drop n M) = c" by (simp add: a_def)
  then have c: "take (length c) (drop n (hdr @ body)) = c"
    unfolding a_def M_def .
  have "drop a (take (a + b) (drop n M)) = drop a (c @ concat cs)" by (simp only: e)
  then have "take b (drop a (drop n M)) = concat cs"
    by (simp add: drop_take a_def)
  then have "take b (drop (n + a) M) = concat cs"
    by (simp add: add.commute)
  then have cs: "take (length (concat cs)) (drop (n + length c) (hdr @ body)) = concat cs"
    unfolding a_def b_def M_def .
  have n1: "n + length c \<le> sizeof_header P + length body" using Cons.prems(3) by simp
  from HandleData_delivered[OF Cons.prems(1) acc c n1 hdr len nz fits, of ndebug]
  obtain ps1 u1 where
    h: "HandleData ndebug P ps u (Some c) (of_nat (length c)) = Some (Inr (True, u1, ps1))"
    and d1: "delivered P hdr body hh bh u0 (n + length c) ps1 u1"
    by blast
  have n2: "n + length c + length (concat cs) \<le> sizeof_header P + length body"
    using Cons.prems(3) by simp
  from Cons.IH[OF d1 cs n2] obtain ps' u' where
    f: "feed ndebug P ps1 u1 cs = Some (Inr (replicate (length cs) True, u', ps'))"
    and d': "delivered P hdr body hh bh u0 (n + length c + length (concat cs)) ps' u'"
    by blast
  show ?case
    using h f d' by (intro exI[of _ ps'] exI[of _ u']) (simp add: add.assoc)
qed

section \<open>Claims about the ring buffer\<close>

text \<open>
  Claim C3. \<open>write\<close> is to fail with \<open>InvalidParameter\<close> for null data or a zero
  length, to fail with \<open>BufferOverflow\<close>, writing nothing, whenever the length exceeds
  the free space, and to succeed otherwise. For lengths that the 32 bit sum
  \<open>buffered_bytes() + length\<close> can hold this is what the code does
  (\<open>write_rb_invalid\<close>, \<open>write_rb_overflow\<close>, \<open>write_rb_ok\<close>). The sum is taken in
  \<open>uint32_t\<close>, though: on a store of 16 bytes that holds one byte, a write of
  \<open>0xFFFFFFFF\<close> bytes makes it wrap to 0, the overflow test passes, and the code
  goes on to copy out of the storage instead of returning \<open>BufferOverflow\<close>.
\<close>

theorem write_overflow_check_wraps:
  "RingBuffer_new ndebug 16
     = Inr \<lparr>index_mask = 15, buffer_m = replicate 16 0, read_index_m = 0,
            write_index_m = 0, buffered_bytes_m = 0\<rparr>
   \<and> write_rb ndebug
        \<lparr>index_mask = 15, buffer_m = replicate 16 0, read_index_m = 0,
         write_index_m = 0, buffered_bytes_m = 0\<rparr> (Some [0x5A]) 1
     = Inr (Success,
            \<lparr>index_mask = 15, buffer_m = 0x5A # replicate 15 0, read_index_m = 0,
             write_index_m = 1, buffered_bytes_m = 1\<rparr>)
   \<and> write_rb ndebug
        \<lparr>index_mask = 15, buffer_m = 0x5A # replicate 15 0, read_index_m = 0,
         write_index_m = 1, buffered_bytes_m = 1\<rparr>
        (Some (replicate 4294967295 0x5A)) 4294967295
     = Inl OutOfBounds"
  by (simp add: RingBuffer_new_def IS_POWER_OF_TWO_def write_rb_def buffered_bytes_def
      capacity_def memcpy_def Let_def word_sless_alt)

text \<open>
  Claim C4. A read with a consumer shows the consumer the first
  \<open>min length buffered_count\<close> buffered bytes. When the consumer accepts, the read
  index is advanced and the count is decreased by that amount; when it refuses, the
  call returns 0 and the store is the one before the call, so that a following read
  or read with a consumer of the same length gets the same bytes. A zero length or
  an empty store returns 0 without calling the consumer.
\<close>

theorem zero_copy_read_commit:
  assumes inv: "rb_inv rb"
  shows "(let n = min len (buffered_bytes_m rb);
              shown = take (unat n) (contents rb)
          in if len = 0 \<or> buffered_bytes_m rb = 0
             then read_cb ndebug rb len recv_cb u = Inr (0, u, rb)
             else
               (case recv_cb u shown n of
                  (accepted, u') \<Rightarrow>
                    (accepted \<longrightarrow>
                       (\<exists>rb'. read_cb ndebug rb len recv_cb u = Inr (n, u', rb')
                          \<and> rb_inv rb'
                          \<and> read_index_m rb' = (read_index_m rb AND index_mask rb) + n
                          \<and> unat (buffered_bytes_m rb') = unat (buffered_bytes_m rb) - unat n
                          \<and> contents rb' = drop (unat n) (contents rb)))
                    \<and> (\<not> accepted \<longrightarrow>
                         read_cb ndebug rb len recv_cb u = Inr (0, u', rb)
                         \<and> (\<forall>dst. unat n \<le> length dst \<longrightarrow>
                               (\<exists>rb'. read ndebug rb (Some dst) len
                                  = Inr (n, Some (shown @ drop (unat n) dst), rb')))
                         \<and> (\<forall>verdict log. \<exists>count rb'.
                               read_cb ndebug rb len (log_body verdict) log
                                  = Inr (count, log @ [BodyEvent shown n], rb')))))"
proof (cases "len = 0 \<or> buffered_bytes_m rb = 0")
  case True
  then show ?thesis by (simp add: read_cb_ok[OF inv] Let_def)
next
  case False
  define n where "n = min len (buffered_bytes_m rb)"
  define shown where "shown = take (unat n) (contents rb)"
  obtain accepted u' where cb: "recv_cb u shown n = (accepted, u')" by (cases "recv_cb u shown n")
  have n: "n \<le> buffered_bytes_m rb" by (simp add: n_def)
  let ?rb = "rb\<lparr>read_index_m := (read_index_m rb AND index_mask rb) + n,
                  buffered_bytes_m := buffered_bytes_m rb - n\<rparr>"
  have c: "rb_inv ?rb" "contents ?rb = drop (unat n) (contents rb)"
    by (rule consume_ok[OF inv n refl])+
  have sub: "unat (buffered_bytes_m rb - n) = unat (buffered_bytes_m rb) - unat n"
    using n by (rule unat_sub)
  have acc: "\<exists>rb'. read_cb ndebug rb len recv_cb u = Inr (n, u', rb')
                          \<and> rb_inv rb'
                          \<and> read_index_m rb' = (read_index_m rb AND index_mask rb) + n
                          \<and> unat (buffered_bytes_m rb') = unat (buffered_bytes_m rb) - unat n
                          \<and> contents rb' = drop (unat n) (contents rb)" if accepted
    using False that cb c sub
    by (intro exI[of _ ?rb]) (simp add: read_cb_ok[OF inv] flip: n_def shown_def)
  have rej1: "read_cb ndebug rb len recv_cb u = Inr (0, u', rb)" if "\<not> accepted"
    using False that cb by (simp add: read_cb_ok[OF inv] flip: n_def shown_def)
  have rej2: "\<exists>rb'. read ndebug rb (Some dst) len = Inr (n, Some (shown @ drop (unat n) dst), rb')"
    if "unat n \<le> length dst" for dst
  proof -
    from that have "unat (min len (buffered_bytes_m rb)) \<le> length dst" by (simp add: n_def)
    from read_ok[OF inv this, of ndebug] show ?thesis
      unfolding n_def shown_def by metis
  qed
  have rej3: "\<exists>count rb'. read_cb ndebug rb len (log_body verdict) log
                                  = Inr (count, log @ [BodyEvent shown n], rb')"
    for verdict log
    using False by (simp add: read_cb_ok[OF inv] log_body_def flip: n_def shown_def)
  show ?thesis
    using False cb acc rej1 rej2 rej3
    by (simp add: Let_def flip: n_def shown_def)
qed

theorem zero_copy_read_commit_witness:
  "rb_inv \<lparr>index_mask = 7, buffer_m = [1, 2, 3, 4, 5, 6, 7, 8], read_index_m = 6,
           write_index_m = 2, buffered_bytes_m = 4\<rparr>
   \<and> read_cb False
        \<lparr>index_mask = 7, buffer_m = [1, 2, 3, 4, 5, 6, 7, 8], read_index_m = 6,
         write_index_m = 2, buffered_bytes_m = 4\<rparr> 3 (log_body False) []
     = Inr (0, [BodyEvent [7, 8, 1] 3],
            \<lparr>index_mask = 7, buffer_m = [1, 2, 3, 4, 5, 6, 7, 8], read_index_m = 6,
             write_index_m = 2, buffered_bytes_m = 4\<rparr>)"
proof -
  let ?rb = "\<lparr>index_mask = 7, buffer_m = [1, 2, 3, 4, 5, 6, 7, 8], read_index_m = 6,
           write_index_m = 2, buffered_bytes_m = 4\<rparr>"
  have inv: "rb_inv ?rb" by (rule rb_invI[of 3]) simp_all
  have cont: "contents ?rb = [7, 8, 1, 2]"
    by (simp add: contents_def rotate_drop_take)
  from zero_copy_read_commit[OF inv, of 3 False "log_body False" "[]"] inv
  show ?thesis
    by (simp add: Let_def cont log_body_def)
qed


text \<open>
  The buffered count on a store within the invariant, that is of at most \<open>2 ^ 30\<close>
  bytes. Take any sequence of writes, reads and drains in which every write is
  no longer than the free space at its time (and every caller's memory is as large
  as the length it passes). After each operation the buffered count is the count
  at the start plus the lengths of the accepted writes minus the amounts actually
  read or drained; it is at most the capacity, which never changes, and it is not
  negative as the \<open>int32_t\<close> it is stored in.
\<close>

theorem buffered_count_accounting:
  assumes inv: "rb_inv rb" and fit: "ops_fit ndebug (rb, 0, 0) ops"
  shows "\<forall>n \<le> length ops. \<exists>rb' written consumed.
           run_ops ndebug (rb, 0, 0) (take n ops) = Inr (rb', written, consumed)
           \<and> int (unat (buffered_bytes_m rb'))
               = int (unat (buffered_bytes_m rb)) + int written - int consumed
           \<and> unat (buffered_bytes_m rb') \<le> unat (capacity rb')
           \<and> capacity rb' = capacity rb
           \<and> \<not> buffered_bytes_m rb' <s 0"
proof (intro allI impI)
  fix n assume "n \<le> length ops"
  have "ops_fit ndebug (rb, 0, 0) (take n ops)" using fit by (rule ops_fit_take)
  from run_ops_ok[OF inv this] obtain rb' w c where
    r: "run_ops ndebug (rb, 0, 0) (take n ops) = Inr (rb', w, c)"
    and i: "rb_inv rb'" and len: "length (buffer_m rb') = length (buffer_m rb)"
    and e: "unat (buffered_bytes_m rb') + c + 0 = unat (buffered_bytes_m rb) + 0 + w"
    by blast
  from i obtain k where cap: "unat (capacity rb') = 2 ^ k" and k: "k < 31"
    and bN: "unat (buffered_bytes_m rb') \<le> 2 ^ k"
    by (rule rb_inv_pow)
  have "unat (buffered_bytes_m rb') < 2 ^ 31" using bN pow2_lt_31[OF k] by linarith
  then have nneg: "\<not> buffered_bytes_m rb' <s 0" by (rule not_sless_zero)
  have eq: "int (unat (buffered_bytes_m rb')) = int (unat (buffered_bytes_m rb)) + int w - int c"
    using e by linarith
  show "\<exists>rb' written consumed.
           run_ops ndebug (rb, 0, 0) (take n ops) = Inr (rb', written, consumed)
           \<and> int (unat (buffered_bytes_m rb'))
               = int (unat (buffered_bytes_m rb)) + int written - int consumed
           \<and> unat (buffered_bytes_m rb') \<le> unat (capacity rb')
           \<and> capacity rb' = capacity rb
           \<and> \<not> buffered_bytes_m rb' <s 0"
    using r eq bN cap nneg len
    by (intro exI[of _ rb'] exI[of _ w] exI[of _ c]) (simp add: capacity_def)
qed


theorem buffered_count_accounting_witness:
  "rb_inv \<lparr>index_mask = 3, buffer_m = replicate 4 0, read_index_m = 0,
            write_index_m = 0, buffered_bytes_m = 0\<rparr>
   \<and> ops_fit False
        (\<lparr>index_mask = 3, buffer_m = replicate 4 0, read_index_m = 0,
          write_index_m = 0, buffered_bytes_m = 0\<rparr>, 0, 0)
        [Write (Some [1, 2, 3]) 3, Read (Some [0, 0]) 2, Write (Some [4, 5]) 2, Drain 5]
   \<and> run_ops False
        (\<lparr>index_mask = 3, buffer_m = replicate 4 0, read_index_m = 0,
          write_index_m = 0, buffered_bytes_m = 0\<rparr>, 0, 0)
        [Write (Some [1, 2, 3]) 3, Read (Some [0, 0]) 2, Write (Some [4, 5]) 2, Drain 5]
     = Inr (\<lparr>index_mask = 3, buffer_m = [5, 2, 3, 4], read_index_m = 1,
             write_index_m = 5, buffered_bytes_m = 0\<rparr>, 5, 5)"
proof -
  let ?rb = "\<lparr>index_mask = 3, buffer_m = replicate 4 0, read_index_m = 0,
            write_index_m = 0, buffered_bytes_m = 0\<rparr>"
  let ?ops = "[Write (Some [1, 2, 3]) 3, Read (Some [0, 0]) 2, Write (Some [4, 5]) 2, Drain 5]"
  have inv: "rb_inv ?rb" by (rule rb_invI[of 2]) simp_all
  have run: "run_ops False (?rb, 0, 0) ?ops
     = Inr (\<lparr>index_mask = 3, buffer_m = [5, 2, 3, 4], read_index_m = 1,
             write_index_m = 5, buffered_bytes_m = 0\<rparr>, 5, 5)"
    by (simp add: write_rb_def read_def drain_def buffered_bytes_def capacity_def memcpy_def
        Let_def word_sless_alt)
  have fit: "ops_fit False (?rb, 0, 0) ?ops"
    by (simp add: write_rb_def read_def drain_def buffered_bytes_def capacity_def memcpy_def
        Let_def word_sless_alt)
  from buffered_count_accounting[OF inv fit] inv fit run show ?thesis by simp
qed

text \<open>
  Claim C6. For writes that fit the free space the buffered count is to be the sum
  of the accepted write lengths minus the amounts read or drained, never above the
  capacity and never below 0. On every store of at most \<open>2 ^ 30\<close> bytes this is what
  the code does (\<open>buffered_count_accounting\<close>). The constructor admits every power of
  two that a \<open>uint32_t\<close> holds, though, and the count is an \<open>int32_t\<close>:
  \<open>RingBuffer(0x80000000)\<close> passes both assertions of the constructor, a write of
  \<open>0x80000000\<close> bytes fits its free space and passes the overflow test, and the count
  it leaves is \<open>0x80000000\<close>, which is \<open>- 2147483648\<close> as an \<open>int32_t\<close>. With the
  assertions compiled in, \<open>assert(buffered_bytes_ >= 0)\<close> at the end of \<open>write\<close>
  ends the program; without them the write returns and the count is negative.
\<close>

theorem count_negative_on_full_store:
  "RingBuffer_new False 0x80000000
     = Inr \<lparr>index_mask = 0x7FFFFFFF, buffer_m = replicate 2147483648 0, read_index_m = 0,
            write_index_m = 0, buffered_bytes_m = 0\<rparr>
   \<and> ops_fit False
        (\<lparr>index_mask = 0x7FFFFFFF, buffer_m = replicate 2147483648 0, read_index_m = 0,
          write_index_m = 0, buffered_bytes_m = 0\<rparr>, 0, 0)
        [Write (Some (replicate 2147483648 0x5A)) 0x80000000]
   \<and> run_ops False
        (\<lparr>index_mask = 0x7FFFFFFF, buffer_m = replicate 2147483648 0, read_index_m = 0,
          write_index_m = 0, buffered_bytes_m = 0\<rparr>, 0, 0)
        [Write (Some (replicate 2147483648 0x5A)) 0x80000000]
     = Inl AssertionFailed
   \<and> run_ops True
        (\<lparr>index_mask = 0x7FFFFFFF, buffer_m = replicate 2147483648 0, read_index_m = 0,
          write_index_m = 0, buffered_bytes_m = 0\<rparr>, 0, 0)
        [Write (Some (replicate 2147483648 0x5A)) 0x80000000]
     = Inr (\<lparr>index_mask = 0x7FFFFFFF, buffer_m = replicate 2147483648 0x5A, read_index_m = 0,
             write_index_m = 0x80000000, buffered_bytes_m = 0x80000000\<rparr>, 2147483648, 0)
   \<and> (0x80000000 :: u32) <s 0
   \<and> sint (0x80000000 :: u32) = - 2147483648"
  by (simp add: RingBuffer_new_def IS_POWER_OF_TWO_def write_rb_def buffered_bytes_def
      capacity_def memcpy_def Let_def word_sless_alt)

text \<open>
  The round trip on a store within the invariant, that is of at most \<open>2 ^ 30\<close>
  bytes. A byte sequence no longer than the capacity, written into an empty store
  in any chunks (an empty chunk is refused with \<open>InvalidParameter\<close> and changes
  nothing) and read back in pieces of any lengths that add up to its length, comes
  back unchanged and in order. The read and write positions of the empty store are
  arbitrary, so the written and the read ranges may wrap around the end of the
  storage.
\<close>

theorem round_trip:
  assumes inv: "rb_inv rb" and emp: "buffered_bytes_m rb = 0"
    and fits: "length (concat chunks) \<le> length (buffer_m rb)"
    and split: "sum_list lens = length (concat chunks)"
  shows "\<exists>rb1 rb2.
           write_all ndebug rb chunks
             = Inr (map (\<lambda>c. if c = [] then ErrInvalidParameter else Success) chunks, rb1)
           \<and> read_all ndebug rb1 lens = Inr (concat chunks, rb2)
           \<and> buffered_bytes_m rb2 = 0"
proof -
  have c0: "contents rb = []" using emp by (simp add: contents_def)
  from write_all_ok[OF inv, of chunks ndebug] fits emp obtain rb1 where
    w: "write_all ndebug rb chunks
          = Inr (map (\<lambda>c. if c = [] then ErrInvalidParameter else Success) chunks, rb1)"
    and i: "rb_inv rb1" and ct: "contents rb1 = contents rb @ concat chunks"
    by auto
  have b1: "unat (buffered_bytes_m rb1) = length (concat chunks)"
    using length_contents[OF i] by (simp add: ct c0)
  then have "sum_list lens \<le> unat (buffered_bytes_m rb1)" using split by simp
  from read_all_ok[OF i this, of ndebug] obtain rb2 where
    r: "read_all ndebug rb1 lens = Inr (take (sum_list lens) (contents rb1), rb2)"
    and i2: "rb_inv rb2" and ct2: "contents rb2 = drop (sum_list lens) (contents rb1)"
    by blast
  have "length (contents rb2) = 0" by (simp add: ct2 ct c0 split)
  then have "buffered_bytes_m rb2 = 0"
    using length_contents[OF i2] by (simp add: unat_eq_0)
  then show ?thesis
    using w r by (intro exI[of _ rb1] exI[of _ rb2]) (simp add: ct c0 split)
qed

theorem round_trip_witness:
  "rb_inv \<lparr>index_mask = 7, buffer_m = [0, 0, 0, 0, 0, 0, 0, 0], read_index_m = 6,
           write_index_m = 6, buffered_bytes_m = 0\<rparr>
   \<and> write_all False
        \<lparr>index_mask = 7, buffer_m = [0, 0, 0, 0, 0, 0, 0, 0], read_index_m = 6,
         write_index_m = 6, buffered_bytes_m = 0\<rparr> [[1, 2, 3], [], [4, 5]]
     = Inr ([Success, ErrInvalidParameter, Success],
            \<lparr>index_mask = 7, buffer_m = [3, 4, 5, 0, 0, 0, 1, 2], read_index_m = 6,
             write_index_m = 3, buffered_bytes_m = 5\<rparr>)
   \<and> read_all False
        \<lparr>index_mask = 7, buffer_m = [3, 4, 5, 0, 0, 0, 1, 2], read_index_m = 6,
         write_index_m = 3, buffered_bytes_m = 5\<rparr> [1, 0, 4]
     = Inr ([1, 2, 3, 4, 5],
            \<lparr>index_mask = 7, buffer_m = [3, 4, 5, 0, 0, 0, 1, 2], read_index_m = 11,
             write_index_m = 3, buffered_bytes_m = 0\<rparr>)"
proof -
  let ?rb = "\<lparr>index_mask = 7, buffer_m = [0, 0, 0, 0, 0, 0, 0, 0], read_index_m = 6,
           write_index_m = 6, buffered_bytes_m = 0\<rparr>"
  have inv: "rb_inv ?rb" by (rule rb_invI[of 3]) simp_all
  have "length (concat [[1, 2, 3], [], [4, 5 :: u8]]) \<le> length (buffer_m ?rb)" by simp
  moreover have "sum_list [1, 0, 4] = length (concat [[1, 2, 3], [], [4, 5 :: u8]])" by simp
  ultimately have "\<exists>rb1 rb2.
           write_all False ?rb [[1, 2, 3], [], [4, 5]]
             = Inr (map (\<lambda>c. if c = [] then ErrInvalidParameter else Success) [[1, 2, 3], [], [4, 5]], rb1)
           \<and> read_all False rb1 [1, 0, 4] = Inr (concat [[1, 2, 3], [], [4, 5]], rb2)
           \<and> buffered_bytes_m rb2 = 0"
    using round_trip[OF inv, of "[[1, 2, 3], [], [4, 5]]" "[1, 0, 4]" False] by simp
  moreover have "replicate 4 (0 :: u8) = [0, 0, 0, 0]" "replicate 3 (0 :: u8) = [0, 0, 0]"
    by (simp_all add: numeral_eq_Suc)
  ultimately show ?thesis
    using inv
    by (simp add: write_rb_def read_def buffered_bytes_def capacity_def memcpy_def
        Let_def word_sless_alt)
qed

text \<open>
  Claim C7. A byte sequence no longer than the capacity, written in any split and
  read back in any split, is to come back unchanged. On every store of at most
  \<open>2 ^ 30\<close> bytes it does (\<open>round_trip\<close>). On the store of \<open>0x80000000\<close> bytes, which
  the constructor admits, a sequence as long as the capacity is not written at all
  when the assertions are compiled in: the write that makes the count reach
  \<open>0x80000000\<close>, be it the only one or the last of several, ends the program at
  \<open>assert(buffered_bytes_ >= 0)\<close>, the count being an \<open>int32_t\<close>.
\<close>

theorem round_trip_abort_on_full_store:
  "RingBuffer_new False 0x80000000
     = Inr \<lparr>index_mask = 0x7FFFFFFF, buffer_m = replicate 2147483648 0, read_index_m = 0,
            write_index_m = 0, buffered_bytes_m = 0\<rparr>
   \<and> length (replicate 2147483648 (0x5A :: u8))
       \<le> unat (capacity \<lparr>index_mask = 0x7FFFFFFF, buffer_m = replicate 2147483648 0, read_index_m = 0,
            write_index_m = 0, buffered_bytes_m = 0\<rparr>)
   \<and> write_all False
        \<lparr>index_mask = 0x7FFFFFFF, buffer_m = replicate 2147483648 0, read_index_m = 0,
         write_index_m = 0, buffered_bytes_m = 0\<rparr>
        [replicate 2147483648 0x5A]
     = Inl AssertionFailed
   \<and> write_all False
        \<lparr>index_mask = 0x7FFFFFFF, buffer_m = replicate 2147483648 0, read_index_m = 0,
         write_index_m = 0, buffered_bytes_m = 0\<rparr>
        [replicate 2147483647 0x5A, [0x5A]]
     = Inl AssertionFailed"
  by (simp add: RingBuffer_new_def IS_POWER_OF_TWO_def write_rb_def buffered_bytes_def
      capacity_def memcpy_def Let_def word_sless_alt)

section \<open>Claims about the parser\<close>

text \<open>
  Claim C5. \<open>HandleData\<close> is to return false exactly when the write into the store
  reports \<open>BufferOverflow\<close>, and true in every other case. With the assertions
  compiled in there is a third outcome. A parser as the constructor leaves it is
  given the 12 bytes of a header whose length field is 0: the write succeeds, the
  loop reads the header, comes to the body state, and
  \<open>assert(current_header_.body_length > 0)\<close> ends the program. \<open>HandleData\<close> has
  returned neither false nor true.
\<close>

theorem HandleData_abort_counterexample:
  "StreamingParser_new False (log_header True) (log_body True) (replicate 12 0)
     = Inr \<lparr>recv_state_m = READ_HEADER, current_header_m = replicate 12 0,
            header_handler_m = log_header True, body_handler_m = log_body True,
            recv_buffer_m = \<lparr>index_mask = 2047, buffer_m = replicate 2048 0, read_index_m = 0,
                              write_index_m = 0, buffered_bytes_m = 0\<rparr>\<rparr>
   \<and> write_rb False
        \<lparr>index_mask = 2047, buffer_m = replicate 2048 0, read_index_m = 0,
         write_index_m = 0, buffered_bytes_m = 0\<rparr>
        (Some [0x55, 0xAA, 0x55, 0xBB, 0, 0, 0, 0, 0xFF, 0xFF, 0, 0]) 12
     = Inr (Success,
            \<lparr>index_mask = 2047,
             buffer_m = [0x55, 0xAA, 0x55, 0xBB, 0, 0, 0, 0, 0xFF, 0xFF, 0, 0] @ replicate 2036 0,
             read_index_m = 0, write_index_m = 12, buffered_bytes_m = 12\<rparr>)
   \<and> HandleData False
       \<lparr>sizeof_header = 12, offsetof_body_length = 4, body_length_is_u32 = True,
        little_endian_host = True\<rparr>
       \<lparr>recv_state_m = READ_HEADER, current_header_m = replicate 12 0,
        header_handler_m = log_header True, body_handler_m = log_body True,
        recv_buffer_m = \<lparr>index_mask = 2047, buffer_m = replicate 2048 0, read_index_m = 0,
                          write_index_m = 0, buffered_bytes_m = 0\<rparr>\<rparr>
       []
       (Some [0x55, 0xAA, 0x55, 0xBB, 0, 0, 0, 0, 0xFF, 0xFF, 0, 0]) 12
     = Some (Inl AssertionFailed)"
  by (simp add: StreamingParser_new_ok HandleData_def parse_loop.simps loop_condition_def
        PerformStreamingParse_def write_rb_def read_def read_cb_def buffered_bytes_def
        capacity_def memcpy_def
        Let_def word_sless_alt protocol_header_length_def log_header_def log_body_def
        DoBytesOrderConversion_def sizeof_body_length_def set_body_length_def
        body_length_def ntohl_def load_u32_def store_u32_def)

text \<open>
  Claim C5, amended. Take any parser state and any call in which the write returns.
  When the write reports \<open>BufferOverflow\<close>, \<open>HandleData\<close> returns false, and the
  parser, its store and the caller's state are what they were: nothing of the chunk
  is admitted. In every other case the loop comes to an end. With the assertions
  compiled out \<open>HandleData\<close> then returns true, whatever number of frames was
  completed. With the assertions compiled in it returns true with the same result,
  unless the loop comes to the body state with a stored length of 0
  (\<open>meets_empty_body\<close>): then, and only then, the assertion of the body state ends
  the program.
\<close>

theorem HandleData_outcome:
  assumes inv: "parser_inv P ps"
    and w: "write_rb ndebug (recv_buffer_m ps) data len = Inr (e, rb')"
  shows "if e = ErrBufferOverflow
         then HandleData ndebug P ps u data len = Some (Inr (False, u, ps))
              \<and> rb' = recv_buffer_m ps
         else if \<not> ndebug \<and> meets_empty_body P (ps\<lparr>recv_buffer_m := rb'\<rparr>) u = Some True
         then HandleData ndebug P ps u data len = Some (Inl AssertionFailed)
         else \<exists>u' ps'. HandleData ndebug P ps u data len = Some (Inr (True, u', ps'))
                \<and> parse_loop True P (ps\<lparr>recv_buffer_m := rb'\<rparr>) u = Some (Inr (u', ps'))
                \<and> parser_inv P ps'"
proof (cases "e = ErrBufferOverflow")
  case True
  then have "rb' = recv_buffer_m ps"
    using write_rb_not_success[OF w] by simp
  then show ?thesis using True w by (simp add: HandleData_def)
next
  case False
  from inv have ri: "rb_inv (recv_buffer_m ps)" by (simp add: parser_inv_def)
  have inv': "parser_inv P (ps\<lparr>recv_buffer_m := rb'\<rparr>)"
  proof (cases "e = Success")
    case True
    from write_rb_Success[OF ri w[unfolded True]]
    have "rb_inv rb'" "length (buffer_m rb') = length (buffer_m (recv_buffer_m ps))"
      by blast+
    then show ?thesis by (rule parser_inv_buffer[OF inv])
  next
    case False
    then have "rb' = recv_buffer_m ps" using write_rb_not_success[OF w] by simp
    then show ?thesis using inv by simp
  qed
  from parse_loop_build[OF inv', of u] obtain u' ps' b where
    t: "parse_loop True P (ps\<lparr>recv_buffer_m := rb'\<rparr>) u = Some (Inr (u', ps'))"
    and i: "parser_inv P ps'"
    and m: "meets_empty_body P (ps\<lparr>recv_buffer_m := rb'\<rparr>) u = Some b"
    and f: "parse_loop False P (ps\<lparr>recv_buffer_m := rb'\<rparr>) u
              = (if b then Some (Inl AssertionFailed) else Some (Inr (u', ps')))"
    by blast
  show ?thesis
  proof (cases ndebug)
    case True
    then show ?thesis using False w t i by (simp add: HandleData_def)
  next
    case nd: False
    then show ?thesis using False w t i m f by (cases b) (simp_all add: HandleData_def)
  qed
qed

theorem HandleData_outcome_witness:
  "parser_inv
     \<lparr>sizeof_header = 12, offsetof_body_length = 4, body_length_is_u32 = True,
      little_endian_host = True\<rparr>
     \<lparr>recv_state_m = READ_HEADER, current_header_m = replicate 12 0,
      header_handler_m = log_header True, body_handler_m = log_body False,
      recv_buffer_m = \<lparr>index_mask = 2047, buffer_m = replicate 2048 0, read_index_m = 0,
                        write_index_m = 0, buffered_bytes_m = 0\<rparr>\<rparr>
   \<and> write_rb False
        \<lparr>index_mask = 2047, buffer_m = replicate 2048 0, read_index_m = 0,
         write_index_m = 0, buffered_bytes_m = 0\<rparr>
        (Some [0x55, 0xAA, 0x55, 0xBB, 0, 0, 0, 2, 0xFF, 0xFF, 0, 0, 0xAC, 0xAD]) 14
     = Inr (Success,
            \<lparr>index_mask = 2047,
             buffer_m = [0x55, 0xAA, 0x55, 0xBB, 0, 0, 0, 2, 0xFF, 0xFF, 0, 0, 0xAC, 0xAD]
                        @ replicate 2034 0,
             read_index_m = 0, write_index_m = 14, buffered_bytes_m = 14\<rparr>)
   \<and> meets_empty_body
       \<lparr>sizeof_header = 12, offsetof_body_length = 4, body_length_is_u32 = True,
        little_endian_host = True\<rparr>
       \<lparr>recv_state_m = READ_HEADER, current_header_m = replicate 12 0,
        header_handler_m = log_header True, body_handler_m = log_body False,
        recv_buffer_m =
          \<lparr>index_mask = 2047,
           buffer_m = [0x55, 0xAA, 0x55, 0xBB, 0, 0, 0, 2, 0xFF, 0xFF, 0, 0, 0xAC, 0xAD]
                      @ replicate 2034 0,
           read_index_m = 0, write_index_m = 14, buffered_bytes_m = 14\<rparr>\<rparr>
       [] = Some False
   \<and> (\<exists>u' ps'.
        HandleData False
          \<lparr>sizeof_header = 12, offsetof_body_length = 4, body_length_is_u32 = True,
           little_endian_host = True\<rparr>
          \<lparr>recv_state_m = READ_HEADER, current_header_m = replicate 12 0,
           header_handler_m = log_header True, body_handler_m = log_body False,
           recv_buffer_m = \<lparr>index_mask = 2047, buffer_m = replicate 2048 0, read_index_m = 0,
                             write_index_m = 0, buffered_bytes_m = 0\<rparr>\<rparr>
          []
          (Some [0x55, 0xAA, 0x55, 0xBB, 0, 0, 0, 2, 0xFF, 0xFF, 0, 0, 0xAC, 0xAD]) 14
        = Some (Inr (True, u', ps')))"
proof -
  let ?P = "\<lparr>sizeof_header = 12, offsetof_body_length = 4, body_length_is_u32 = True,
      little_endian_host = True\<rparr>"
  let ?rb = "\<lparr>index_mask = 2047, buffer_m = replicate 2048 0, read_index_m = 0,
                        write_index_m = 0, buffered_bytes_m = 0\<rparr>"
  let ?rb1 = "\<lparr>index_mask = 2047,
             buffer_m = [0x55, 0xAA, 0x55, 0xBB, 0, 0, 0, 2, 0xFF, 0xFF, 0, 0, 0xAC, 0xAD]
                        @ replicate 2034 0,
             read_index_m = 0, write_index_m = 14, buffered_bytes_m = 14\<rparr>"
  let ?ps = "\<lparr>recv_state_m = READ_HEADER, current_header_m = replicate 12 0,
      header_handler_m = log_header True, body_handler_m = log_body False,
      recv_buffer_m = ?rb\<rparr>"
  let ?msg = "[0x55, 0xAA, 0x55, 0xBB, 0, 0, 0, 2, 0xFF, 0xFF, 0, 0, 0xAC, 0xAD] :: u8 list"
  have inv: "parser_inv ?P ?ps"
    using rb_inv_default by (simp add: parser_inv_def layout_ok_def sizeof_body_length_def)
  have w: "write_rb False (recv_buffer_m ?ps) (Some ?msg) 14 = Inr (Success, ?rb1)"
    by (simp add: write_rb_def buffered_bytes_def capacity_def memcpy_def Let_def word_sless_alt)
  have m: "meets_empty_body ?P (?ps\<lparr>recv_buffer_m := ?rb1\<rparr>) [] = Some False"
    by (simp add: meets_empty_body.simps loop_condition_def
        PerformStreamingParse_def read_def read_cb_def buffered_bytes_def
        capacity_def memcpy_def
        Let_def word_sless_alt protocol_header_length_def log_header_def log_body_def
        DoBytesOrderConversion_def sizeof_body_length_def set_body_length_def
        body_length_def ntohl_def load_u32_def store_u32_def)
  from HandleData_outcome[OF inv w, of "[]"] m inv w
  show ?thesis by auto
qed


text \<open>
  Claim C8. In the state \<open>READ_HEADER\<close>, with at least \<open>sizeof(ProtoHeader)\<close> bytes
  buffered, one transition takes exactly that many bytes out of the store into the
  header object, replaces the length field by its \<open>ntohl\<close> (32 bit) or \<open>ntohs\<close>
  (16 bit) image, which is the number the received bytes spell in network order,
  calls the header handler on the converted header, leaves the converted value in
  \<open>current_header_.body_length\<close> and moves to \<open>READ_BODY\<close>. The verdict of the handler
  does not occur in the result: the handler is arbitrary, and only the state it
  returns for the caller is kept.
\<close>

theorem header_transition:
  assumes inv: "parser_inv P ps" and st: "recv_state_m ps = READ_HEADER"
    and enough: "sizeof_header P \<le> unat (buffered_bytes_m (recv_buffer_m ps))"
  shows "\<exists>ps'. 
      (let received = take (sizeof_header P) (contents (recv_buffer_m ps))
       in PerformStreamingParse ndebug P ps u
            = Inr (False, snd (header_handler_m ps u (current_header_m ps')), ps')
          \<and> recv_state_m ps' = READ_BODY
          \<and> current_header_m ps'
              = set_body_length P received
                  (if body_length_is_u32 P
                   then ntohl (little_endian_host P) (body_length P received)
                   else ucast (ntohs (little_endian_host P) (ucast (body_length P received))))
          \<and> body_length P (current_header_m ps') = wire_length P received
          \<and> contents (recv_buffer_m ps') = drop (sizeof_header P) (contents (recv_buffer_m ps))
          \<and> unat (buffered_bytes_m (recv_buffer_m ps'))
              = unat (buffered_bytes_m (recv_buffer_m ps)) - sizeof_header P
          \<and> header_handler_m ps' = header_handler_m ps
          \<and> body_handler_m ps' = body_handler_m ps
          \<and> parser_inv P ps')"
proof -
  let ?rb = "recv_buffer_m ps"
  let ?raw = "take (sizeof_header P) (contents ?rb)"
  let ?H = "DoBytesOrderConversion P ?raw"
  from inv have lo: "layout_ok P" and ri: "rb_inv ?rb"
    and n2048: "length (buffer_m ?rb) = 2048"
    by (simp_all add: parser_inv_def)
  from header_step[OF inv st enough, of ndebug u] obtain rb' where
    res: "PerformStreamingParse ndebug P ps u =
            Inr (False, snd (header_handler_m ps u ?H),
                 ps\<lparr>current_header_m := ?H, recv_buffer_m := rb', recv_state_m := READ_BODY\<rparr>)"
    and i: "rb_inv rb'" and ct: "contents rb' = drop (sizeof_header P) (contents ?rb)"
    and bf: "buffer_m rb' = buffer_m ?rb"
    and b: "unat (buffered_bytes_m rb') = unat (buffered_bytes_m ?rb) - sizeof_header P"
    by blast
  have len: "length ?raw = sizeof_header P"
    using enough by (simp add: length_contents[OF ri])
  have conv: "?H = set_body_length P ?raw
                  (if body_length_is_u32 P
                   then ntohl (little_endian_host P) (body_length P ?raw)
                   else ucast (ntohs (little_endian_host P) (ucast (body_length P ?raw))))"
    by (simp add: DoBytesOrderConversion_def sizeof_body_length_def)
  have wl: "body_length P ?H = wire_length P ?raw"
    by (rule body_length_DoBytesOrderConversion[OF lo len])
  have hl: "length ?H = sizeof_header P"
    unfolding length_DoBytesOrderConversion[OF lo len] by (rule len)
  have inv': "parser_inv P (ps\<lparr>current_header_m := ?H, recv_buffer_m := rb', recv_state_m := READ_BODY\<rparr>)"
    using lo i bf n2048 hl by (simp add: parser_inv_def)
  show ?thesis
    apply (rule exI[of _ "ps\<lparr>current_header_m := ?H, recv_buffer_m := rb', recv_state_m := READ_BODY\<rparr>"])
    unfolding Let_def
    apply (intro conjI)
            apply (simp add: res)
           apply simp
          apply (simp add: conv[symmetric])
         apply (simp add: wl)
        apply (simp add: ct)
       apply (simp add: b)
      apply simp
     apply simp
    apply (rule inv')
    done
qed


theorem header_transition_witness:
  "parser_inv
     \<lparr>sizeof_header = 12, offsetof_body_length = 4, body_length_is_u32 = True,
      little_endian_host = True\<rparr>
     \<lparr>recv_state_m = READ_HEADER, current_header_m = replicate 12 0,
      header_handler_m = log_header False, body_handler_m = log_body True,
      recv_buffer_m =
        \<lparr>index_mask = 2047,
         buffer_m = [0x55, 0xAA, 0x55, 0xBB, 0, 0, 0, 100, 0xFF, 0xFF, 0, 0] @ replicate 2036 0,
         read_index_m = 0, write_index_m = 12, buffered_bytes_m = 12\<rparr>\<rparr>
   \<and> PerformStreamingParse False
       \<lparr>sizeof_header = 12, offsetof_body_length = 4, body_length_is_u32 = True,
        little_endian_host = True\<rparr>
       \<lparr>recv_state_m = READ_HEADER, current_header_m = replicate 12 0,
        header_handler_m = log_header False, body_handler_m = log_body True,
        recv_buffer_m =
          \<lparr>index_mask = 2047,
           buffer_m = [0x55, 0xAA, 0x55, 0xBB, 0, 0, 0, 100, 0xFF, 0xFF, 0, 0] @ replicate 2036 0,
           read_index_m = 0, write_index_m = 12, buffered_bytes_m = 12\<rparr>\<rparr> []
     = Inr (False, [HeaderEvent [0x55, 0xAA, 0x55, 0xBB, 100, 0, 0, 0, 0xFF, 0xFF, 0, 0]],
         \<lparr>recv_state_m = READ_BODY,
          current_header_m = [0x55, 0xAA, 0x55, 0xBB, 100, 0, 0, 0, 0xFF, 0xFF, 0, 0],
          header_handler_m = log_header False, body_handler_m = log_body True,
          recv_buffer_m =
            \<lparr>index_mask = 2047,
             buffer_m = [0x55, 0xAA, 0x55, 0xBB, 0, 0, 0, 100, 0xFF, 0xFF, 0, 0] @ replicate 2036 0,
             read_index_m = 12, write_index_m = 12, buffered_bytes_m = 0\<rparr>\<rparr>)"
proof -
  let ?P = "\<lparr>sizeof_header = 12, offsetof_body_length = 4, body_length_is_u32 = True,
      little_endian_host = True\<rparr>"
  let ?rb = "\<lparr>index_mask = 2047,
         buffer_m = [0x55, 0xAA, 0x55, 0xBB, 0, 0, 0, 100, 0xFF, 0xFF, 0, 0] @ replicate 2036 0,
         read_index_m = 0, write_index_m = 12, buffered_bytes_m = 12\<rparr>"
  let ?ps = "\<lparr>recv_state_m = READ_HEADER, current_header_m = replicate 12 0,
      header_handler_m = log_header False, body_handler_m = log_body True,
      recv_buffer_m = ?rb\<rparr>"
  have ri: "rb_inv ?rb" by (rule rb_invI[of 11]) simp_all
  have inv: "parser_inv ?P ?ps"
    using ri by (simp add: parser_inv_def layout_ok_def sizeof_body_length_def)
  have ct: "contents ?rb = [0x55, 0xAA, 0x55, 0xBB, 0, 0, 0, 100, 0xFF, 0xFF, 0, 0]"
    by (simp add: contents_def)
  have conv: "DoBytesOrderConversion ?P [0x55, 0xAA, 0x55, 0xBB, 0, 0, 0, 100, 0xFF, 0xFF, 0, 0]
      = [0x55, 0xAA, 0x55, 0xBB, 100, 0, 0, 0, 0xFF, 0xFF, 0, 0]"
    by (simp add: DoBytesOrderConversion_def sizeof_body_length_def set_body_length_def
        body_length_def ntohl_def load_u32_def store_u32_def)
  from header_transition[OF inv, of False "[]"]
  obtain ps' where
    res: "PerformStreamingParse False ?P ?ps []
            = Inr (False, snd (header_handler_m ?ps [] (current_header_m ps')), ps')"
    by (auto simp add: Let_def)
  show ?thesis
    using inv res
    by (simp add: PerformStreamingParse_def read_def buffered_bytes_def capacity_def memcpy_def
        Let_def word_sless_alt protocol_header_length_def conv log_header_def)
qed


text \<open>
  Claim C10. The store of a parser is built by the default constructor and has 2048
  bytes. The claim that every \<open>HandleData\<close> call whose length plus the buffered count
  exceeds 2048 returns false fails for a null \<open>data\<close>: \<open>write\<close> tests the pointer
  first and reports \<open>InvalidParameter\<close>, which \<open>HandleData\<close> does not take for a
  failure, so the call returns true (and admits nothing).
\<close>

theorem HandleData_null_data_counterexample:
  "StreamingParser_new False (log_header True) (log_body True) (replicate 12 0)
     = Inr \<lparr>recv_state_m = READ_HEADER, current_header_m = replicate 12 0,
            header_handler_m = log_header True, body_handler_m = log_body True,
            recv_buffer_m = \<lparr>index_mask = 2047, buffer_m = replicate 2048 0, read_index_m = 0,
                              write_index_m = 0, buffered_bytes_m = 0\<rparr>\<rparr>
   \<and> HandleData False
       \<lparr>sizeof_header = 12, offsetof_body_length = 4, body_length_is_u32 = True,
        little_endian_host = True\<rparr>
       \<lparr>recv_state_m = READ_HEADER, current_header_m = replicate 12 0,
        header_handler_m = log_header True, body_handler_m = log_body True,
        recv_buffer_m = \<lparr>index_mask = 2047, buffer_m = replicate 2048 0, read_index_m = 0,
                          write_index_m = 0, buffered_bytes_m = 0\<rparr>\<rparr>
       [] None 2049
     = Some (Inr (True, [],
         \<lparr>recv_state_m = READ_HEADER, current_header_m = replicate 12 0,
          header_handler_m = log_header True, body_handler_m = log_body True,
          recv_buffer_m = \<lparr>index_mask = 2047, buffer_m = replicate 2048 0, read_index_m = 0,
                            write_index_m = 0, buffered_bytes_m = 0\<rparr>\<rparr>))"
proof -
  let ?P = "\<lparr>sizeof_header = 12, offsetof_body_length = 4, body_length_is_u32 = True,
        little_endian_host = True\<rparr>"
  let ?ps = "\<lparr>recv_state_m = READ_HEADER, current_header_m = replicate 12 0,
        header_handler_m = log_header True, body_handler_m = log_body True,
        recv_buffer_m = \<lparr>index_mask = 2047, buffer_m = replicate 2048 0, read_index_m = 0,
                          write_index_m = 0, buffered_bytes_m = 0\<rparr>\<rparr>"
  have "loop_condition False ?P ?ps = Inr False"
    by (simp add: loop_condition_def buffered_bytes_def protocol_header_length_def word_sless_alt)
  then have "parse_loop False ?P ?ps [] = Some (Inr ([], ?ps))"
    by (rule parse_loop_stop)
  then show ?thesis
    by (simp add: HandleData_def write_rb_def StreamingParser_new_ok)
qed

text \<open>
  Claim C10, amended: with \<open>data\<close> not null and a sum of length and buffered count
  that exceeds 2048 and is below \<open>2 ^ 32\<close>, \<open>HandleData\<close> returns false and the
  parser, its store and the caller's state are unchanged. The capacity is 2048 in
  every parser state and in the state the constructor builds.
\<close>

theorem HandleData_over_capacity:
  assumes inv: "parser_inv P ps"
    and big: "2048 < unat (buffered_bytes_m (recv_buffer_m ps)) + unat len"
    and nowrap: "unat (buffered_bytes_m (recv_buffer_m ps)) + unat len < 2 ^ 32"
  shows "capacity (recv_buffer_m ps) = 2048
         \<and> HandleData ndebug P ps u (Some src) len = Some (Inr (False, u, ps))
         \<and> (\<exists>ps0. StreamingParser_new ndebug (header_handler_m ps) (body_handler_m ps) h0 = Inr ps0
                   \<and> capacity (recv_buffer_m ps0) = 2048)"
proof -
  from inv have ri: "rb_inv (recv_buffer_m ps)"
    and n: "length (buffer_m (recv_buffer_m ps)) = 2048"
    by (simp_all add: parser_inv_def)
  have bN: "unat (buffered_bytes_m (recv_buffer_m ps)) \<le> 2048"
    using ri n unfolding rb_inv_def by simp
  then have l0: "len \<noteq> 0" using big by (auto simp add: unat_eq_0)
  have "write_rb ndebug (recv_buffer_m ps) (Some src) len = Inr (ErrBufferOverflow, recv_buffer_m ps)"
    by (rule write_rb_overflow[OF ri l0 _ nowrap]) (use big n in simp)
  then have h: "HandleData ndebug P ps u (Some src) len = Some (Inr (False, u, ps))"
    by (simp add: HandleData_def)
  have c: "capacity (recv_buffer_m ps) = 2048" by (simp add: capacity_def n)
  show ?thesis
    using h c by (simp add: StreamingParser_new_ok capacity_def)
qed

theorem HandleData_over_capacity_witness:
  "parser_inv \<lparr>sizeof_header = 12, offsetof_body_length = 4, body_length_is_u32 = True,
               little_endian_host = True\<rparr>
     \<lparr>recv_state_m = READ_HEADER, current_header_m = replicate 12 0,
      header_handler_m = log_header True, body_handler_m = log_body True,
      recv_buffer_m = \<lparr>index_mask = 2047, buffer_m = replicate 2048 0x5A, read_index_m = 7,
                        write_index_m = 6, buffered_bytes_m = 2047\<rparr>\<rparr>
   \<and> HandleData False
       \<lparr>sizeof_header = 12, offsetof_body_length = 4, body_length_is_u32 = True,
        little_endian_host = True\<rparr>
       \<lparr>recv_state_m = READ_HEADER, current_header_m = replicate 12 0,
        header_handler_m = log_header True, body_handler_m = log_body True,
        recv_buffer_m = \<lparr>index_mask = 2047, buffer_m = replicate 2048 0x5A, read_index_m = 7,
                          write_index_m = 6, buffered_bytes_m = 2047\<rparr>\<rparr>
       [] (Some [1, 2]) 2
     = Some (Inr (False, [],
         \<lparr>recv_state_m = READ_HEADER, current_header_m = replicate 12 0,
          header_handler_m = log_header True, body_handler_m = log_body True,
          recv_buffer_m = \<lparr>index_mask = 2047, buffer_m = replicate 2048 0x5A, read_index_m = 7,
                            write_index_m = 6, buffered_bytes_m = 2047\<rparr>\<rparr>))"
proof -
  let ?P = "\<lparr>sizeof_header = 12, offsetof_body_length = 4, body_length_is_u32 = True,
               little_endian_host = True\<rparr>"
  let ?rb = "\<lparr>index_mask = 2047, buffer_m = replicate 2048 0x5A, read_index_m = 7,
                        write_index_m = 6, buffered_bytes_m = 2047\<rparr>"
  let ?ps = "\<lparr>recv_state_m = READ_HEADER, current_header_m = replicate 12 0,
      header_handler_m = log_header True, body_handler_m = log_body True,
      recv_buffer_m = ?rb\<rparr>"
  have ri: "rb_inv ?rb" by (rule rb_invI[of 11]) simp_all
  have inv: "parser_inv ?P ?ps"
    using ri by (simp add: parser_inv_def layout_ok_def sizeof_body_length_def)
  from HandleData_over_capacity[OF inv, of 2 False "[]" "[1, 2]"] inv
  show ?thesis by simp
qed


text \<open>
  Claim C9. After a complete header whose length field spells 0 the parser is said
  to stall for ever, with no further handler invocation whatever bytes follow. It
  does not. With assertions compiled out, one \<open>HandleData\<close> call that delivers such a
  header, then a header of length 1 and its body byte, invokes the header handler
  for both headers and the body handler for the body.
\<close>

theorem zero_length_header_counterexample:
  "HandleData True
       \<lparr>sizeof_header = 12, offsetof_body_length = 4, body_length_is_u32 = True,
        little_endian_host = True\<rparr>
       \<lparr>recv_state_m = READ_HEADER, current_header_m = replicate 12 0,
        header_handler_m = log_header True, body_handler_m = log_body True,
        recv_buffer_m = \<lparr>index_mask = 2047, buffer_m = replicate 2048 0, read_index_m = 0,
                          write_index_m = 0, buffered_bytes_m = 0\<rparr>\<rparr>
       []
       (Some [0x55, 0xAA, 0x55, 0xBB, 0, 0, 0, 0, 0xFF, 0xFF, 0, 0,
              0x55, 0xAA, 0x55, 0xBB, 0, 0, 0, 1, 0xFF, 0xFF, 0, 0,
              0xAC]) 25
     = Some (Inr (True,
         [HeaderEvent [0x55, 0xAA, 0x55, 0xBB, 0, 0, 0, 0, 0xFF, 0xFF, 0, 0],
          HeaderEvent [0x55, 0xAA, 0x55, 0xBB, 1, 0, 0, 0, 0xFF, 0xFF, 0, 0],
          BodyEvent [0xAC] 1],
         \<lparr>recv_state_m = READ_HEADER,
          current_header_m = [0x55, 0xAA, 0x55, 0xBB, 0, 0, 0, 0, 0xFF, 0xFF, 0, 0],
          header_handler_m = log_header True, body_handler_m = log_body True,
          recv_buffer_m =
            \<lparr>index_mask = 2047,
             buffer_m = [0x55, 0xAA, 0x55, 0xBB, 0, 0, 0, 0, 0xFF, 0xFF, 0, 0,
                         0x55, 0xAA, 0x55, 0xBB, 0, 0, 0, 1, 0xFF, 0xFF, 0, 0,
                         0xAC] @ replicate 2023 0,
             read_index_m = 25, write_index_m = 25, buffered_bytes_m = 0\<rparr>\<rparr>))"
  by (simp add: HandleData_def parse_loop.simps loop_condition_def
        PerformStreamingParse_def write_rb_def read_def read_cb_def buffered_bytes_def
        capacity_def memcpy_def
        Let_def word_sless_alt protocol_header_length_def log_header_def log_body_def
        DoBytesOrderConversion_def sizeof_body_length_def set_body_length_def
        body_length_def ntohl_def load_u32_def store_u32_def)

text \<open>
  Claim C9, amended: a header whose length field spells 0 does not stall the parser.
  The header transition is made (the header handler is called). With assertions
  compiled in, the body transition that follows in the same loop fails
  \<open>assert(current_header_.body_length > 0)\<close> and the program is ended. With
  assertions compiled out, the body transition calls no handler and takes no byte
  out of the store (the read of length 0 returns at once), moves back to
  \<open>READ_HEADER\<close>, and the loop goes on from there with the bytes that follow.
\<close>

theorem zero_length_header:
  assumes inv: "parser_inv P ps" and st: "recv_state_m ps = READ_HEADER"
    and enough: "sizeof_header P \<le> unat (buffered_bytes_m (recv_buffer_m ps))"
    and zero: "wire_length P (take (sizeof_header P) (contents (recv_buffer_m ps))) = 0"
  shows "(let header = DoBytesOrderConversion P
                         (take (sizeof_header P) (contents (recv_buffer_m ps)));
              u1 = snd (header_handler_m ps u header)
          in (\<not> ndebug \<longrightarrow> parse_loop ndebug P ps u = Some (Inl AssertionFailed))
           \<and> (ndebug \<longrightarrow>
                (\<exists>ps1 ps2.
                   PerformStreamingParse ndebug P ps u = Inr (False, u1, ps1)
                   \<and> recv_state_m ps1 = READ_BODY
                   \<and> body_length P (current_header_m ps1) = 0
                   \<and> PerformStreamingParse ndebug P ps1 u1 = Inr (False, u1, ps2)
                   \<and> recv_state_m ps2 = READ_HEADER
                   \<and> recv_buffer_m ps2 = recv_buffer_m ps1
                   \<and> contents (recv_buffer_m ps2)
                       = drop (sizeof_header P) (contents (recv_buffer_m ps))
                   \<and> parser_inv P ps2
                   \<and> parse_loop ndebug P ps u = parse_loop ndebug P ps2 u1)))"
proof -
  let ?rb = "recv_buffer_m ps"
  let ?raw = "take (sizeof_header P) (contents ?rb)"
  let ?H = "DoBytesOrderConversion P ?raw"
  let ?u1 = "snd (header_handler_m ps u ?H)"
  from inv have lo: "layout_ok P" and ri: "rb_inv ?rb"
    and n2048: "length (buffer_m ?rb) = 2048"
    by (simp_all add: parser_inv_def)
  from header_step[OF inv st enough, of ndebug u] obtain rb' where
    res: "PerformStreamingParse ndebug P ps u =
            Inr (False, ?u1,
                 ps\<lparr>current_header_m := ?H, recv_buffer_m := rb', recv_state_m := READ_BODY\<rparr>)"
    and i: "rb_inv rb'" and ct: "contents rb' = drop (sizeof_header P) (contents ?rb)"
    and bf: "buffer_m rb' = buffer_m ?rb"
    by blast
  let ?ps1 = "ps\<lparr>current_header_m := ?H, recv_buffer_m := rb', recv_state_m := READ_BODY\<rparr>"
  have len: "length ?raw = sizeof_header P"
    using enough by (simp add: length_contents[OF ri])
  have L0: "body_length P ?H = 0"
    using body_length_DoBytesOrderConversion[OF lo len] zero by simp
  have hl: "length ?H = sizeof_header P"
    unfolding length_DoBytesOrderConversion[OF lo len] by (rule len)
  have inv1: "parser_inv P ?ps1"
    using lo i bf n2048 hl by (simp add: parser_inv_def)
  have go: "loop_condition ndebug P ps = Inr True"
    using enough by (simp add: loop_condition_ok[OF inv] st)
  have go1: "loop_condition ndebug P ?ps1 = Inr True"
    by (simp add: loop_condition_ok[OF inv1] L0)
  have l1: "parse_loop ndebug P ps u = parse_loop ndebug P ?ps1 ?u1"
    by (rule parse_loop_step[OF go res])
  have dbg: "parse_loop ndebug P ps u = Some (Inl AssertionFailed)" if "\<not> ndebug"
  proof -
    have "PerformStreamingParse ndebug P ?ps1 ?u1 = Inl AssertionFailed"
      by (rule body_step_assert) (use that L0 in simp_all)
    then show ?thesis unfolding l1 by (rule parse_loop_fault[OF go1])
  qed
  let ?ps2 = "?ps1\<lparr>recv_buffer_m := rb', recv_state_m := READ_HEADER,
                     current_header_m := set_body_length P ?H 0\<rparr>"
  have rel: "\<exists>ps1 ps2.
                   PerformStreamingParse ndebug P ps u = Inr (False, ?u1, ps1)
                   \<and> recv_state_m ps1 = READ_BODY
                   \<and> body_length P (current_header_m ps1) = 0
                   \<and> PerformStreamingParse ndebug P ps1 ?u1 = Inr (False, ?u1, ps2)
                   \<and> recv_state_m ps2 = READ_HEADER
                   \<and> recv_buffer_m ps2 = recv_buffer_m ps1
                   \<and> contents (recv_buffer_m ps2) = drop (sizeof_header P) (contents ?rb)
                   \<and> parser_inv P ps2
                   \<and> parse_loop ndebug P ps u = parse_loop ndebug P ps2 ?u1" if nd: ndebug
  proof -
    have b: "PerformStreamingParse ndebug P ?ps1 ?u1 = Inr (False, ?u1, ?ps2)"
      using body_step[OF inv1, of ndebug ?u1] nd L0 by simp
    have inv2: "parser_inv P ?ps2"
      using lo i bf n2048 hl by (simp add: parser_inv_def length_set_body_length[OF lo])
    have l2: "parse_loop ndebug P ?ps1 ?u1 = parse_loop ndebug P ?ps2 ?u1"
      by (rule parse_loop_step[OF go1 b])
    show ?thesis
      apply (rule exI[of _ ?ps1], rule exI[of _ ?ps2])
      apply (intro conjI)
              apply (rule res)
             apply simp
            apply (simp add: L0)
           apply (rule b)
          apply simp
         apply simp
        apply (simp add: ct)
       apply (rule inv2)
      apply (simp only: l1 l2)
      done
  qed
  show ?thesis
    unfolding Let_def using dbg rel by blast
qed

theorem zero_length_header_witness:
  "parser_inv
     \<lparr>sizeof_header = 12, offsetof_body_length = 4, body_length_is_u32 = True,
      little_endian_host = True\<rparr>
     \<lparr>recv_state_m = READ_HEADER, current_header_m = replicate 12 0,
      header_handler_m = log_header True, body_handler_m = log_body True,
      recv_buffer_m =
        \<lparr>index_mask = 2047,
         buffer_m = [0x55, 0xAA, 0x55, 0xBB, 0, 0, 0, 0, 0xFF, 0xFF, 0, 0] @ replicate 2036 0,
         read_index_m = 0, write_index_m = 12, buffered_bytes_m = 12\<rparr>\<rparr>
   \<and> parse_loop False
       \<lparr>sizeof_header = 12, offsetof_body_length = 4, body_length_is_u32 = True,
        little_endian_host = True\<rparr>
       \<lparr>recv_state_m = READ_HEADER, current_header_m = replicate 12 0,
        header_handler_m = log_header True, body_handler_m = log_body True,
        recv_buffer_m =
          \<lparr>index_mask = 2047,
           buffer_m = [0x55, 0xAA, 0x55, 0xBB, 0, 0, 0, 0, 0xFF, 0xFF, 0, 0] @ replicate 2036 0,
           read_index_m = 0, write_index_m = 12, buffered_bytes_m = 12\<rparr>\<rparr> []
     = Some (Inl AssertionFailed)"
proof -
  let ?P = "\<lparr>sizeof_header = 12, offsetof_body_length = 4, body_length_is_u32 = True,
      little_endian_host = True\<rparr>"
  let ?rb = "\<lparr>index_mask = 2047,
         buffer_m = [0x55, 0xAA, 0x55, 0xBB, 0, 0, 0, 0, 0xFF, 0xFF, 0, 0] @ replicate 2036 0,
         read_index_m = 0, write_index_m = 12, buffered_bytes_m = 12\<rparr>"
  let ?ps = "\<lparr>recv_state_m = READ_HEADER, current_header_m = replicate 12 0,
      header_handler_m = log_header True, body_handler_m = log_body True,
      recv_buffer_m = ?rb\<rparr>"
  have ri: "rb_inv ?rb" by (rule rb_invI[of 11]) simp_all
  have inv: "parser_inv ?P ?ps"
    using ri by (simp add: parser_inv_def layout_ok_def sizeof_body_length_def)
  have z: "wire_length ?P (take (sizeof_header ?P) (contents (recv_buffer_m ?ps))) = 0"
    by (simp add: contents_def wire_length_def load_u32_def)
  from zero_length_header[OF inv _ _ z, where ndebug = False and u = "[]"] inv
  show ?thesis by (simp add: Let_def)
qed


text \<open>
  Claim C1. When the body handler returns false for a completed body, the parser is
  to stay in \<open>READ_BODY\<close> with the same pending length and the same buffered bytes,
  and the loop is to stop. The store does keep the bytes (lemma \<open>read_cb_ok\<close>), but
  \<open>PerformStreamingParse\<close> does not look at what \<open>read\<close> returns: it moves to
  \<open>READ_HEADER\<close>, sets \<open>body_length\<close> to 0 and lets the loop go on (lemma
  \<open>body_step\<close>, for every state). Here a header announcing 4 body bytes arrives with
  its body, and the body handler refuses: the call leaves the parser in
  \<open>READ_HEADER\<close> with the 4 body bytes buffered, and the next 8 bytes make it take
  the refused body and those bytes for a header and call the header handler on it.
\<close>

theorem body_handler_refusal:
  "HandleData False
       \<lparr>sizeof_header = 12, offsetof_body_length = 4, body_length_is_u32 = True,
        little_endian_host = True\<rparr>
       \<lparr>recv_state_m = READ_HEADER, current_header_m = replicate 12 0,
        header_handler_m = log_header True, body_handler_m = log_body False,
        recv_buffer_m = \<lparr>index_mask = 2047, buffer_m = replicate 2048 0, read_index_m = 0,
                          write_index_m = 0, buffered_bytes_m = 0\<rparr>\<rparr>
       []
       (Some [0x55, 0xAA, 0x55, 0xBB, 0, 0, 0, 4, 0xFF, 0xFF, 0, 0, 1, 2, 3, 4]) 16
     = Some (Inr (True,
         [HeaderEvent [0x55, 0xAA, 0x55, 0xBB, 4, 0, 0, 0, 0xFF, 0xFF, 0, 0],
          BodyEvent [1, 2, 3, 4] 4],
         \<lparr>recv_state_m = READ_HEADER,
          current_header_m = [0x55, 0xAA, 0x55, 0xBB, 0, 0, 0, 0, 0xFF, 0xFF, 0, 0],
          header_handler_m = log_header True, body_handler_m = log_body False,
          recv_buffer_m =
            \<lparr>index_mask = 2047,
             buffer_m = [0x55, 0xAA, 0x55, 0xBB, 0, 0, 0, 4, 0xFF, 0xFF, 0, 0, 1, 2, 3, 4]
                        @ replicate 2032 0,
             read_index_m = 12, write_index_m = 16, buffered_bytes_m = 4\<rparr>\<rparr>))
   \<and> HandleData False
       \<lparr>sizeof_header = 12, offsetof_body_length = 4, body_length_is_u32 = True,
        little_endian_host = True\<rparr>
       \<lparr>recv_state_m = READ_HEADER,
        current_header_m = [0x55, 0xAA, 0x55, 0xBB, 0, 0, 0, 0, 0xFF, 0xFF, 0, 0],
        header_handler_m = log_header True, body_handler_m = log_body False,
        recv_buffer_m =
          \<lparr>index_mask = 2047,
           buffer_m = [0x55, 0xAA, 0x55, 0xBB, 0, 0, 0, 4, 0xFF, 0xFF, 0, 0, 1, 2, 3, 4]
                      @ replicate 2032 0,
           read_index_m = 12, write_index_m = 16, buffered_bytes_m = 4\<rparr>\<rparr>
       [HeaderEvent [0x55, 0xAA, 0x55, 0xBB, 4, 0, 0, 0, 0xFF, 0xFF, 0, 0],
        BodyEvent [1, 2, 3, 4] 4]
       (Some [5, 6, 7, 8, 9, 10, 11, 12]) 8
     = Some (Inr (True,
         [HeaderEvent [0x55, 0xAA, 0x55, 0xBB, 4, 0, 0, 0, 0xFF, 0xFF, 0, 0],
          BodyEvent [1, 2, 3, 4] 4,
          HeaderEvent [1, 2, 3, 4, 8, 7, 6, 5, 9, 10, 11, 12]],
         \<lparr>recv_state_m = READ_BODY,
          current_header_m = [1, 2, 3, 4, 8, 7, 6, 5, 9, 10, 11, 12],
          header_handler_m = log_header True, body_handler_m = log_body False,
          recv_buffer_m =
            \<lparr>index_mask = 2047,
             buffer_m = [0x55, 0xAA, 0x55, 0xBB, 0, 0, 0, 4, 0xFF, 0xFF, 0, 0, 1, 2, 3, 4,
                         5, 6, 7, 8, 9, 10, 11, 12] @ replicate 2024 0,
             read_index_m = 24, write_index_m = 24, buffered_bytes_m = 0\<rparr>\<rparr>))"
  by (simp add: HandleData_def parse_loop.simps loop_condition_def
        PerformStreamingParse_def write_rb_def read_def read_cb_def buffered_bytes_def
        capacity_def memcpy_def
        Let_def word_sless_alt protocol_header_length_def log_header_def log_body_def
        DoBytesOrderConversion_def sizeof_body_length_def set_body_length_def
        body_length_def ntohl_def load_u32_def store_u32_def)

text \<open>
  Claim C2. Every message of a header and a body, with handlers that accept and a
  body length that is not 0, is to reach the handlers once each, however its bytes
  are split over \<open>HandleData\<close> calls. The store of the parser has 2048 bytes, though,
  and \<open>HandleData\<close> writes a whole chunk into it before it parses. A message of a
  12 byte header and a body of 2048 bytes, given in one call, does not fit:
  \<open>HandleData\<close> returns false and no handler is called.
\<close>

theorem oversize_message_counterexample:
  "feed False
       \<lparr>sizeof_header = 12, offsetof_body_length = 4, body_length_is_u32 = True,
        little_endian_host = True\<rparr>
       \<lparr>recv_state_m = READ_HEADER, current_header_m = replicate 12 0,
        header_handler_m = log_header True, body_handler_m = log_body True,
        recv_buffer_m = \<lparr>index_mask = 2047, buffer_m = replicate 2048 0, read_index_m = 0,
                          write_index_m = 0, buffered_bytes_m = 0\<rparr>\<rparr>
       []
       [[0x55, 0xAA, 0x55, 0xBB, 0, 0, 8, 0, 0xFF, 0xFF, 0, 0] @ replicate 2048 0xAC]
     = Some (Inr ([False], [],
         \<lparr>recv_state_m = READ_HEADER, current_header_m = replicate 12 0,
          header_handler_m = log_header True, body_handler_m = log_body True,
          recv_buffer_m = \<lparr>index_mask = 2047, buffer_m = replicate 2048 0, read_index_m = 0,
                            write_index_m = 0, buffered_bytes_m = 0\<rparr>\<rparr>))
   \<and> wire_length
       \<lparr>sizeof_header = 12, offsetof_body_length = 4, body_length_is_u32 = True,
        little_endian_host = True\<rparr>
       [0x55, 0xAA, 0x55, 0xBB, 0, 0, 8, 0, 0xFF, 0xFF, 0, 0]
     = of_nat (length (replicate 2048 (0xAC :: u8)))"
  by (simp add: HandleData_def write_rb_def buffered_bytes_def capacity_def word_sless_alt
      wire_length_def load_u32_def)

text \<open>
  Claim C2, amended: a message of at most 2048 bytes. The parser waits for a header
  and its store is empty; the body handler accepts whatever it is given; the bytes
  of the length field spell the length of the body, which is not 0. Then for every
  split of the message into chunks, empty ones and single bytes included, every
  \<open>HandleData\<close> call returns true, and the caller's state at the end is the one left
  by one call of the header handler, on the header with its length field converted
  to host order (the field then holds the length of the body), followed by one call
  of the body handler on exactly the body. The result does not depend on the split,
  and the parser is back in \<open>READ_HEADER\<close> with an empty store. The verdict of the
  header handler plays no part.
\<close>

theorem fragmentation:
  assumes inv: "parser_inv P ps" and st: "recv_state_m ps = READ_HEADER"
    and emp: "buffered_bytes_m (recv_buffer_m ps) = 0"
    and acc: "\<forall>v d l. fst (body_handler_m ps v d l)"
    and hdr: "length hdr = sizeof_header P"
    and len: "wire_length P hdr = of_nat (length body)"
    and nz: "body \<noteq> []"
    and fits: "sizeof_header P + length body \<le> 2048"
    and split: "concat chunks = hdr @ body"
  shows "\<exists>ps'. feed ndebug P ps u chunks
             = Some (Inr (replicate (length chunks) True,
                          snd (body_handler_m ps
                                 (snd (header_handler_m ps u (DoBytesOrderConversion P hdr)))
                                 body (of_nat (length body))),
                          ps'))
           \<and> body_length P (DoBytesOrderConversion P hdr) = of_nat (length body)
           \<and> recv_state_m ps' = READ_HEADER
           \<and> buffered_bytes_m (recv_buffer_m ps') = 0
           \<and> parser_inv P ps'"
proof -
  let ?hh = "header_handler_m ps"
  let ?bh = "body_handler_m ps"
  from inv have lo: "layout_ok P" and ri: "rb_inv (recv_buffer_m ps)"
    by (simp_all add: parser_inv_def)
  have c0: "contents (recv_buffer_m ps) = []" using emp by (simp add: contents_def)
  have d0: "delivered P hdr body ?hh ?bh u 0 ps u"
    using inv st c0 layout_ok_size(2)[OF lo] by (simp add: delivered_def)
  have tk: "take (length (concat chunks)) (drop 0 (hdr @ body)) = concat chunks"
    by (simp add: split)
  have n: "0 + length (concat chunks) \<le> sizeof_header P + length body"
    by (simp add: split hdr)
  have acc': "\<And>v d l. fst (?bh v d l)" using acc by blast
  from feed_delivered[OF d0 tk n acc' hdr len nz fits, of ndebug] obtain ps' u' where
    f: "feed ndebug P ps u chunks = Some (Inr (replicate (length chunks) True, u', ps'))"
    and d: "delivered P hdr body ?hh ?bh u (0 + length (concat chunks)) ps' u'"
    by blast
  have full: "0 + length (concat chunks) = sizeof_header P + length body"
    by (simp add: split hdr)
  from d have inv': "parser_inv P ps'" and st': "recv_state_m ps' = READ_HEADER"
    and ce: "contents (recv_buffer_m ps') = []"
    and lg: "u' = snd (?bh (snd (?hh u (DoBytesOrderConversion P hdr))) body (of_nat (length body)))"
    unfolding full by (simp_all add: delivered_def)
  from inv' have ri': "rb_inv (recv_buffer_m ps')" by (simp add: parser_inv_def)
  have "unat (buffered_bytes_m (recv_buffer_m ps')) = 0"
    using length_contents[OF ri'] by (simp add: ce)
  then have b0: "buffered_bytes_m (recv_buffer_m ps') = 0" by (simp add: unat_eq_0)
  have bl: "body_length P (DoBytesOrderConversion P hdr) = of_nat (length body)"
    using body_length_DoBytesOrderConversion[OF lo hdr] len by simp
  show ?thesis
    using f st' b0 bl inv' by (intro exI[of _ ps']) (simp add: lg)
qed

theorem fragmentation_witness:
  "parser_inv
     \<lparr>sizeof_header = 12, offsetof_body_length = 4, body_length_is_u32 = True,
      little_endian_host = True\<rparr>
     \<lparr>recv_state_m = READ_HEADER, current_header_m = replicate 12 0,
      header_handler_m = log_header False, body_handler_m = log_body True,
      recv_buffer_m = \<lparr>index_mask = 2047, buffer_m = replicate 2048 0, read_index_m = 2046,
                        write_index_m = 2046, buffered_bytes_m = 0\<rparr>\<rparr>
   \<and> wire_length
       \<lparr>sizeof_header = 12, offsetof_body_length = 4, body_length_is_u32 = True,
        little_endian_host = True\<rparr>
       [0x55, 0xAA, 0x55, 0xBB, 0, 0, 0, 2, 0xFF, 0xFF, 0, 0] = 2
   \<and> (\<exists>ps'.
        feed False
          \<lparr>sizeof_header = 12, offsetof_body_length = 4, body_length_is_u32 = True,
           little_endian_host = True\<rparr>
          \<lparr>recv_state_m = READ_HEADER, current_header_m = replicate 12 0,
           header_handler_m = log_header False, body_handler_m = log_body True,
           recv_buffer_m = \<lparr>index_mask = 2047, buffer_m = replicate 2048 0, read_index_m = 2046,
                             write_index_m = 2046, buffered_bytes_m = 0\<rparr>\<rparr>
          []
          [[0x55, 0xAA, 0x55], [], [0xBB, 0, 0, 0, 2, 0xFF, 0xFF, 0, 0, 0xAC], [0xAD]]
        = Some (Inr ([True, True, True, True],
                     [HeaderEvent [0x55, 0xAA, 0x55, 0xBB, 2, 0, 0, 0, 0xFF, 0xFF, 0, 0],
                      BodyEvent [0xAC, 0xAD] 2],
                     ps')))"
proof -
  let ?P = "\<lparr>sizeof_header = 12, offsetof_body_length = 4, body_length_is_u32 = True,
      little_endian_host = True\<rparr>"
  let ?rb = "\<lparr>index_mask = 2047, buffer_m = replicate 2048 0, read_index_m = 2046,
                        write_index_m = 2046, buffered_bytes_m = 0\<rparr>"
  let ?ps = "\<lparr>recv_state_m = READ_HEADER, current_header_m = replicate 12 0,
      header_handler_m = log_header False, body_handler_m = log_body True,
      recv_buffer_m = ?rb\<rparr>"
  let ?hdr = "[0x55, 0xAA, 0x55, 0xBB, 0, 0, 0, 2, 0xFF, 0xFF, 0, 0] :: u8 list"
  let ?body = "[0xAC, 0xAD] :: u8 list"
  let ?chunks = "[[0x55, 0xAA, 0x55], [], [0xBB, 0, 0, 0, 2, 0xFF, 0xFF, 0, 0, 0xAC], [0xAD]] :: u8 list list"
  have ri: "rb_inv ?rb" by (rule rb_invI[of 11]) simp_all
  have inv: "parser_inv ?P ?ps"
    using ri by (simp add: parser_inv_def layout_ok_def sizeof_body_length_def)
  have st: "recv_state_m ?ps = READ_HEADER" by simp
  have emp: "buffered_bytes_m (recv_buffer_m ?ps) = 0" by simp
  have acc: "\<forall>v d l. fst (body_handler_m ?ps v d l)" by (simp add: log_body_def)
  have hdr: "length ?hdr = sizeof_header ?P" by simp
  have len: "wire_length ?P ?hdr = of_nat (length ?body)"
    by (simp add: wire_length_def load_u32_def)
  have nz: "?body \<noteq> []" by simp
  have fits: "sizeof_header ?P + length ?body \<le> 2048" by simp
  have split: "concat ?chunks = ?hdr @ ?body" by simp
  have H: "DoBytesOrderConversion ?P ?hdr = [0x55, 0xAA, 0x55, 0xBB, 2, 0, 0, 0, 0xFF, 0xFF, 0, 0]"
    by (simp add: DoBytesOrderConversion_def sizeof_body_length_def set_body_length_def
        body_length_def ntohl_def load_u32_def store_u32_def)
  from fragmentation[OF inv st emp acc hdr len nz fits split, where ndebug = False and u = "[]"]
  obtain ps' where
    "feed False ?P ?ps [] ?chunks
       = Some (Inr (replicate (length ?chunks) True,
                    snd (body_handler_m ?ps
                           (snd (header_handler_m ?ps [] (DoBytesOrderConversion ?P ?hdr)))
                           ?body (of_nat (length ?body))),
                    ps'))"
    by blast
  then have "feed False ?P ?ps [] ?chunks
       = Some (Inr ([True, True, True, True],
                     [HeaderEvent [0x55, 0xAA, 0x55, 0xBB, 2, 0, 0, 0, 0xFF, 0xFF, 0, 0],
                      BodyEvent [0xAC, 0xAD] 2],
                     ps'))"
    by (simp add: H log_header_def log_body_def del: feed.simps)
  then show ?thesis using inv len by auto
qed

end
